theory Spec2Isabelle
  imports Complex_Main "HOL-Library.Word" "HOL-Library.Sublist"
begin

unbundle bit_operations_syntax

section \<open>The prompt A/B test extension (extensions/prompt-ab-test/index.ts)\<close>

text \<open>
  A shallow embedding of the extension's selection helpers (\<open>hashString\<close>,
  \<open>selectVariant\<close>, \<open>assignVariant\<close>), of \<open>register\<close> with its validation of the
  configured experiments, and of the \<open>before_prompt_build\<close> and \<open>agent_end\<close> handlers
  with the assignment cache they share.

  Conventions of the embedding:
  \<^item> a JavaScript string is the list of its UTF-16 code units (\<open>16 word list\<close>), which is
    what \<open>length\<close> and \<open>charCodeAt\<close> see;
  \<^item> an optional field is an \<open>option\<close>; \<open>null\<close> and \<open>undefined\<close> are both \<open>None\<close>
    (the source only tests them with \<open>??\<close>, \<open>?.\<close> and truthiness, which do not tell
    them apart);
  \<^item> a seed is an integer (\<open>int\<close>); a weight, and every number \<open>selectVariant\<close>
    computes, is an IEEE 754 double (\<open>jsnum\<close>): \<open>NaN\<close>, the two infinities, the
    negative zero, or a finite value as a rational, and every arithmetic result is rounded
    to the nearest double, ties to even;
  \<^item> a thrown \<open>Error\<close> is the \<open>Inl\<close> of a sum;
  \<^item> the closure state of \<open>register\<close> (the assignment cache) and the logger's output
    are a record passed through every handler.
\<close>

subsection \<open>Strings\<close>

type_synonym jsstring = "16 word list"

text \<open>An ASCII literal as a JavaScript string.\<close>

definition js :: "string \<Rightarrow> jsstring" where
  "js s = map (\<lambda>c. of_nat (of_char c)) s"

text \<open>
  \<open>String.prototype.trim\<close>: strips the ECMAScript \<open>WhiteSpace\<close> and
  \<open>LineTerminator\<close> code units from both ends.
\<close>

definition isWhiteSpace :: "16 word \<Rightarrow> bool" where
  "isWhiteSpace c =
     (c \<in> set [9, 10, 11, 12, 13, 32, 160, 5760, 8232, 8233, 8239, 8287, 12288, 65279]
      \<or> (8192 \<le> c \<and> c \<le> 8202))"

definition trim :: "jsstring \<Rightarrow> jsstring" where
  "trim s = rev (dropWhile isWhiteSpace (rev (dropWhile isWhiteSpace s)))"

text \<open>\<open>Array.prototype.join\<close> on an array of strings.\<close>

fun join :: "jsstring \<Rightarrow> jsstring list \<Rightarrow> jsstring" where
  "join sep [] = []"
| "join sep [x] = x"
| "join sep (x # y # ys) = x @ sep @ join sep (y # ys)"

text \<open>The decimal digits of a non-negative integer (a template literal's \<open>${n}\<close>).\<close>

fun decimal :: "nat \<Rightarrow> jsstring" where
  "decimal n =
     (if n < 10 then [of_nat (48 + n)]
      else decimal (n div 10) @ [of_nat (48 + n mod 10)])"

text \<open>A string is truthy when it is present and not empty.\<close>

definition truthy :: "jsstring option \<Rightarrow> bool" where
  "truthy s = (case s of None \<Rightarrow> False | Some t \<Rightarrow> t \<noteq> [])"

subsection \<open>Numbers\<close>

text \<open>
  A JavaScript number. \<open>Num r\<close> is the finite double of value \<open>r\<close> (\<open>Num 0\<close> is the
  positive zero); the numbers a program holds are those whose \<open>r\<close> is a double, and
  every operation below rounds its result to one.
\<close>

datatype jsnum = NaN | PosInf | NegInf | NegZero | Num rat

text \<open>
  Rounding to binary64, round to nearest, ties to even. \<open>ilog2 n\<close> is the integer
  logarithm of a positive integer and \<open>floorLog2 x\<close> the exponent of the binade of a
  positive \<open>x\<close> (\<open>2^e \<le> x < 2^(e+1)\<close>); below the normal range the exponent stays at -1022
  (subnormals); the value is rounded to a multiple of \<open>2^(e - 52)\<close>; a result of
  magnitude \<open>2^1024\<close> is an infinity, and a result rounded to zero keeps the sign.
\<close>

fun ilog2 :: "nat \<Rightarrow> int" where
  "ilog2 n = (if n < 2 then 0 else ilog2 (n div 2) + 1)"

definition floorLog2 :: "rat \<Rightarrow> int" where
  "floorLog2 x =
     (if 1 \<le> x then ilog2 (nat \<lfloor>x\<rfloor>)
      else - (ilog2 (nat (\<lceil>1 / x\<rceil> - 1)) + 1))"

definition roundHalfEven :: "rat \<Rightarrow> int" where
  "roundHalfEven x =
     (let f = \<lfloor>x\<rfloor>; d = x - of_int f
      in if d < 1 / 2 then f
         else if 1 / 2 < d then f + 1
         else if even f then f else f + 1)"

definition exponentOf :: "rat \<Rightarrow> int" where
  "exponentOf x = max (floorLog2 \<bar>x\<bar>) (- 1022)"

definition quantumOf :: "rat \<Rightarrow> rat" where
  "quantumOf x = 2 powi (exponentOf x - 52)"

definition roundedValue :: "rat \<Rightarrow> rat" where
  "roundedValue x = of_int (roundHalfEven (x / quantumOf x)) * quantumOf x"

definition roundToDouble :: "rat \<Rightarrow> jsnum" where
  "roundToDouble x =
     (if x = 0 then Num 0
      else if 2 powi 1024 \<le> \<bar>roundedValue x\<bar> then (if x < 0 then NegInf else PosInf)
      else if roundedValue x = 0 then (if x < 0 then NegZero else Num 0)
      else Num (roundedValue x))"

text \<open>The value, the sign bit and the finiteness of a number; signed zeros and infinities.\<close>

definition valueOf :: "jsnum \<Rightarrow> rat" where
  "valueOf a = (case a of Num r \<Rightarrow> r | _ \<Rightarrow> 0)"

definition signbit :: "jsnum \<Rightarrow> bool" where
  "signbit a = (case a of NegInf \<Rightarrow> True | NegZero \<Rightarrow> True | Num r \<Rightarrow> r < 0 | _ \<Rightarrow> False)"

definition isFinite :: "jsnum \<Rightarrow> bool" where
  "isFinite a = (case a of NegZero \<Rightarrow> True | Num r \<Rightarrow> True | _ \<Rightarrow> False)"

definition signedZero :: "bool \<Rightarrow> jsnum" where
  "signedZero negative = (if negative then NegZero else Num 0)"

definition signedInf :: "bool \<Rightarrow> jsnum" where
  "signedInf negative = (if negative then NegInf else PosInf)"

text \<open>
  The operators \<open>+\<close>, \<open>*\<close> and \<open>/\<close> on numbers: \<open>NaN\<close> is contagious, opposite
  infinities add to \<open>NaN\<close>, an exact sum of zero is \<open>+0\<close> unless both operands are
  \<open>-0\<close>, zero times infinity, \<open>0/0\<close> and infinity over infinity are \<open>NaN\<close>, and a zero
  product or quotient has the sign of its operands.
\<close>

definition dadd :: "jsnum \<Rightarrow> jsnum \<Rightarrow> jsnum" where
  "dadd a b =
     (if a = NaN \<or> b = NaN then NaN
      else if isFinite a then
        (if isFinite b then
           (if a = NegZero \<and> b = NegZero then NegZero
            else roundToDouble (valueOf a + valueOf b))
         else b)
      else if isFinite b then a
      else if a = b then a else NaN)"

definition dmul :: "jsnum \<Rightarrow> jsnum \<Rightarrow> jsnum" where
  "dmul a b =
     (if a = NaN \<or> b = NaN then NaN
      else if isFinite a \<and> isFinite b then
        (if valueOf a * valueOf b = 0 then signedZero (signbit a \<noteq> signbit b)
         else roundToDouble (valueOf a * valueOf b))
      else if (isFinite a \<and> valueOf a = 0) \<or> (isFinite b \<and> valueOf b = 0) then NaN
      else signedInf (signbit a \<noteq> signbit b))"

definition ddiv :: "jsnum \<Rightarrow> jsnum \<Rightarrow> jsnum" where
  "ddiv a b =
     (if a = NaN \<or> b = NaN then NaN
      else if isFinite a \<and> isFinite b then
        (if valueOf b = 0 then
           (if valueOf a = 0 then NaN else signedInf (signbit a \<noteq> signbit b))
         else if valueOf a = 0 then signedZero (signbit a \<noteq> signbit b)
         else roundToDouble (valueOf a / valueOf b))
      else if isFinite b then signedInf (signbit a \<noteq> signbit b)
      else if isFinite a then signedZero (signbit a \<noteq> signbit b)
      else NaN)"

text \<open>The comparisons \<open><\<close> and \<open><=\<close>: false on \<open>NaN\<close>, and the two zeros are equal.\<close>

definition dlt :: "jsnum \<Rightarrow> jsnum \<Rightarrow> bool" where
  "dlt a b =
     (if a = NaN \<or> b = NaN then False
      else if a = PosInf \<or> b = NegInf then False
      else if a = NegInf \<or> b = PosInf then True
      else valueOf a < valueOf b)"

definition dle :: "jsnum \<Rightarrow> jsnum \<Rightarrow> bool" where
  "dle a b =
     (if a = NaN \<or> b = NaN then False
      else if a = NegInf \<or> b = PosInf then True
      else if a = PosInf \<or> b = NegInf then False
      else valueOf a \<le> valueOf b)"

text \<open>\<open>Math.max(0, w)\<close>: \<open>NaN\<close> when \<open>w\<close> is, and \<open>+0\<close> for both zeros.\<close>

definition mathMax0 :: "jsnum \<Rightarrow> jsnum" where
  "mathMax0 w =
     (case w of
        NaN \<Rightarrow> NaN
      | PosInf \<Rightarrow> PosInf
      | NegInf \<Rightarrow> Num 0
      | NegZero \<Rightarrow> Num 0
      | Num r \<Rightarrow> (if 0 < r then Num r else Num 0))"

text \<open>
  The remainder operator \<open>%\<close> on an integer dividend and an integer divisor: exact, with
  the sign of the dividend (also on a zero result), \<open>NaN\<close> for the divisor 0.
\<close>

definition js_rem :: "int \<Rightarrow> int \<Rightarrow> jsnum" where
  "js_rem a b =
     (if b = 0 then NaN
      else
        let r = sgn a * (\<bar>a\<bar> mod \<bar>b\<bar>)
        in if r = 0 \<and> a < 0 then NegZero else Num (of_int r))"

text \<open>
  A total weight from which the product with a ratio of magnitude at least one millionth
  cannot round to zero (about 5.4e-318).
\<close>

definition underflowBound :: rat where
  "underflowBound = 2 powi (- 1054)"

text \<open>\<open>Number.MIN_VALUE\<close>, the smallest positive double (about 5e-324).\<close>

definition minSubnormal :: rat where
  "minSubnormal = 2 powi (- 1074)"

subsection \<open>Config types\<close>

record PromptVariant =
  variant_id :: jsstring
  weight :: "jsnum option"
  prependContext :: "jsstring option"
  systemPrompt :: "jsstring option"

record AbTestExperiment =
  experiment_id :: jsstring
  description :: "jsstring option"
  enabled :: "bool option"
  variants :: "PromptVariant list"
  agentIds :: "jsstring list option"

text \<open>
  An entry of \<open>cfg.experiments\<close> before validation. \<open>raw_id\<close> is \<open>None\<close> when
  \<open>typeof exp.id\<close> is not \<open>"string"\<close>, \<open>raw_variants\<close> is \<open>None\<close> when
  \<open>Array.isArray(exp.variants)\<close> is false, \<open>raw_enabled\<close> is \<open>None\<close> when the field is
  not a boolean. A \<open>null\<close> or \<open>undefined\<close> entry is \<open>None\<close> in the list.
\<close>

record RawExperiment =
  raw_id :: "jsstring option"
  raw_description :: "jsstring option"
  raw_enabled :: "bool option"
  raw_variants :: "PromptVariant list option"
  raw_agentIds :: "jsstring list option"

record PromptAbTestConfig =
  experiments :: "RawExperiment option list option"

subsection \<open>Variant selection helpers\<close>

text \<open>
  \<open>hash = ((hash * 33) ^ str.charCodeAt(i)) >>> 0\<close>: the product is exact (below
  \<open>2^53\<close>), \<open>^\<close> converts both operands with \<open>ToInt32\<close> (the value modulo \<open>2^32\<close>, as
  a 32-bit word) and xors them, \<open>>>> 0\<close> reads the word as unsigned.
\<close>

definition hash_step :: "int \<Rightarrow> 16 word \<Rightarrow> int" where
  "hash_step hash c = uint ((word_of_int (hash * 33) :: 32 word) XOR (ucast c :: 32 word))"

definition hashString :: "jsstring \<Rightarrow> int" where
  "hashString str = foldl hash_step 5381 str"

datatype error = EmptyVariants

text \<open>\<open>Math.max(0, v.weight ?? 1)\<close>\<close>

definition effectiveWeight :: "PromptVariant \<Rightarrow> jsnum" where
  "effectiveWeight v = mathMax0 (case weight v of None \<Rightarrow> Num 1 | Some w \<Rightarrow> w)"

text \<open>\<open>((seed % 1_000_000) / 1_000_000) * totalWeight\<close>\<close>

definition seedPosition :: "int \<Rightarrow> jsnum \<Rightarrow> jsnum" where
  "seedPosition seed totalWeight =
     dmul (ddiv (js_rem seed 1000000) (Num 1000000)) totalWeight"

text \<open>
  The \<open>for\<close> loop of \<open>selectVariant\<close> over \<open>variants[i]\<close> and \<open>weights[i]\<close>, from the
  running \<open>cumulative\<close>: \<open>Some\<close> the variant it returns, \<open>None\<close> when it runs off the end.
\<close>

fun walk :: "jsnum \<Rightarrow> jsnum \<Rightarrow> (PromptVariant \<times> jsnum) list \<Rightarrow> PromptVariant option" where
  "walk position cumulative [] = None"
| "walk position cumulative ((v, w) # rest) =
     (let cumulative' = dadd cumulative w
      in if dlt position cumulative' then Some v else walk position cumulative' rest)"

definition selectVariant :: "PromptVariant list \<Rightarrow> int \<Rightarrow> error + PromptVariant" where
  "selectVariant vs seed =
     (if length vs = 0 then Inl EmptyVariants
      else
        let weights = map effectiveWeight vs;
            totalWeight = foldl dadd (Num 0) weights
        in if dle totalWeight (Num 0) then Inr (vs ! 0)
           else
             let position = seedPosition seed totalWeight
             in case walk position (Num 0) (zip vs weights) of
                  Some v \<Rightarrow> Inr v
                | None \<Rightarrow> Inr (vs ! (length vs - 1)))"

text \<open>The template literal \<open>`${sessionKey}:${experimentId}`\<close> (58 is the colon).\<close>

definition compositeKey :: "jsstring \<Rightarrow> jsstring \<Rightarrow> jsstring" where
  "compositeKey sk ex = sk @ [58] @ ex"

definition assignVariant :: "jsstring \<Rightarrow> jsstring \<Rightarrow> PromptVariant list \<Rightarrow> error + PromptVariant" where
  "assignVariant sk ex vs = selectVariant vs (hashString (compositeKey sk ex))"

subsection \<open>Plugin state: the assignment cache and the logger\<close>

datatype log_level = Debug | Info | Warn

type_synonym log_entry = "log_level \<times> jsstring"

text \<open>
  \<open>assignmentCache\<close> is the \<open>Map<string, PromptVariant>\<close> that \<open>register\<close> creates;
  \<open>logger\<close> is what \<open>api.logger\<close> has been given, oldest first.
\<close>

record plugin_state =
  assignmentCache :: "jsstring \<rightharpoonup> PromptVariant"
  logger :: "log_entry list"

definition initial_state :: plugin_state where
  "initial_state = \<lparr>assignmentCache = Map.empty, logger = []\<rparr>"

text \<open>
  \<open>getVariantForSession\<close>: the cached variant when the key is in the cache, otherwise
  the variant \<open>assignVariant\<close> returns, stored and reported on the debug channel
  (32, 8594, 32 is the arrow between two blanks). When \<open>assignVariant\<close> throws,
  nothing has been stored yet.
\<close>

definition getVariantForSession ::
    "plugin_state \<Rightarrow> jsstring \<Rightarrow> AbTestExperiment \<Rightarrow> (error + PromptVariant) \<times> plugin_state" where
  "getVariantForSession st sk experiment =
     (let cacheKey = compositeKey sk (experiment_id experiment)
      in case assignmentCache st cacheKey of
           Some cached \<Rightarrow> (Inr cached, st)
         | None \<Rightarrow>
             (case assignVariant sk (experiment_id experiment) (variants experiment) of
                Inl err \<Rightarrow> (Inl err, st)
              | Inr variant \<Rightarrow>
                  (Inr variant,
                   st\<lparr>assignmentCache := (assignmentCache st)(cacheKey \<mapsto> variant),
                      logger := logger st @
                        [(Debug, js ''prompt-ab-test: assigned session='' @ sk
                                 @ js '' experiment='' @ experiment_id experiment
                                 @ [32, 8594, 32] @ js ''variant='' @ variant_id variant)]\<rparr>)))"

subsection \<open>The before_prompt_build handler\<close>

record HookContext =
  ctx_sessionKey :: "jsstring option"
  ctx_sessionId :: "jsstring option"
  ctx_agentId :: "jsstring option"

record Overlay =
  out_systemPrompt :: "jsstring option"
  out_prependContext :: "jsstring option"

text \<open>
  The \<open>agentIds\<close> filter: the experiment is skipped (\<open>continue\<close>) when it has a
  non-empty allow-list and the request's \<open>agentId\<close> is falsy or not in the list.
\<close>

definition skippedFor :: "jsstring option \<Rightarrow> AbTestExperiment \<Rightarrow> bool" where
  "skippedFor agentId experiment =
     (case agentIds experiment of
        None \<Rightarrow> False
      | Some ids \<Rightarrow>
          (if length ids > 0
           then (case agentId of
                   None \<Rightarrow> True
                 | Some a \<Rightarrow> (if a = [] then True else a \<notin> set ids))
           else False))"

text \<open>\<open>variant.prependContext?.trim()\<close>\<close>

definition trimmedContext :: "PromptVariant \<Rightarrow> jsstring option" where
  "trimmedContext v = (case prependContext v of None \<Rightarrow> None | Some c \<Rightarrow> Some (trim c))"

text \<open>The two updates of the loop body, on \<open>resultSystemPrompt\<close> and on \<open>prependParts\<close>.\<close>

definition overwritePrompt :: "PromptVariant \<Rightarrow> jsstring option \<Rightarrow> jsstring option" where
  "overwritePrompt variant resultSystemPrompt =
     (if truthy (systemPrompt variant) then systemPrompt variant else resultSystemPrompt)"

definition pushContext :: "PromptVariant \<Rightarrow> jsstring list \<Rightarrow> jsstring list" where
  "pushContext variant prependParts =
     (case trimmedContext variant of
        None \<Rightarrow> prependParts
      | Some t \<Rightarrow> (if t \<noteq> [] then prependParts @ [t] else prependParts))"

text \<open>
  The \<open>for\<close> loop over \<open>activeExperiments\<close>, with its two accumulators
  \<open>resultSystemPrompt\<close> and \<open>prependParts\<close>. An exception leaves the loop with the
  state as it is at that point.
\<close>

fun composeLoop ::
    "jsstring \<Rightarrow> jsstring option \<Rightarrow> AbTestExperiment list \<Rightarrow> jsstring option \<Rightarrow> jsstring list
      \<Rightarrow> plugin_state \<Rightarrow> (error + jsstring option \<times> jsstring list) \<times> plugin_state" where
  "composeLoop sk agentId [] resultSystemPrompt prependParts st =
     (Inr (resultSystemPrompt, prependParts), st)"
| "composeLoop sk agentId (experiment # rest) resultSystemPrompt prependParts st =
     (if skippedFor agentId experiment
      then composeLoop sk agentId rest resultSystemPrompt prependParts st
      else
        (case getVariantForSession st sk experiment of
           (Inl err, st') \<Rightarrow> (Inl err, st')
         | (Inr variant, st') \<Rightarrow>
             composeLoop sk agentId rest
               (overwritePrompt variant resultSystemPrompt)
               (pushContext variant prependParts)
               st'))"

text \<open>\<open>ctx.sessionKey ?? ctx.sessionId ?? "anonymous"\<close>\<close>

definition promptSessionKey :: "HookContext \<Rightarrow> jsstring" where
  "promptSessionKey ctx =
     (case ctx_sessionKey ctx of
        Some k \<Rightarrow> k
      | None \<Rightarrow> (case ctx_sessionId ctx of Some i \<Rightarrow> i | None \<Rightarrow> js ''anonymous''))"

text \<open>
  The handler, for the \<open>activeExperiments\<close> of the registration: \<open>Inr None\<close> is the
  \<open>undefined\<close> it returns, \<open>Inl\<close> a rejected promise (10 is the line feed).
\<close>

definition before_prompt_build ::
    "AbTestExperiment list \<Rightarrow> HookContext \<Rightarrow> plugin_state
      \<Rightarrow> (error + Overlay option) \<times> plugin_state" where
  "before_prompt_build activeExperiments ctx st =
     (case composeLoop (promptSessionKey ctx) (ctx_agentId ctx) activeExperiments None [] st of
        (Inl err, st') \<Rightarrow> (Inl err, st')
      | (Inr (resultSystemPrompt, prependParts), st') \<Rightarrow>
          (if resultSystemPrompt = None \<and> length prependParts = 0 then (Inr None, st')
           else
             (Inr (Some \<lparr>out_systemPrompt = resultSystemPrompt,
                          out_prependContext =
                            (if length prependParts > 0
                             then Some (join [10, 10] prependParts) else None)\<rparr>),
              st')))"

text \<open>A sequence of prompt-build invocations, oldest first: each one runs on the state
  the one before has left.\<close>

fun run_prompt_builds :: "AbTestExperiment list \<Rightarrow> HookContext list \<Rightarrow> plugin_state \<Rightarrow> plugin_state" where
  "run_prompt_builds activeExperiments [] st = st"
| "run_prompt_builds activeExperiments (ctx # ctxs) st =
     run_prompt_builds activeExperiments ctxs (snd (before_prompt_build activeExperiments ctx st))"

subsection \<open>The agent_end handler\<close>

text \<open>
  \<open>ctx.sessionKey ?? ctx.sessionId\<close>, then the early return on a falsy key; the cache
  is only read (\<open>assignmentCache.get\<close>); one info line when an assignment is found.
\<close>

definition reportLine :: "jsstring \<Rightarrow> jsstring list \<Rightarrow> log_entry" where
  "reportLine sk assignments =
     (Info, js ''prompt-ab-test: assignments session='' @ sk @ js '' [''
            @ join (js '', '') assignments @ js '']'')"

definition cachedAssignments :: "AbTestExperiment list \<Rightarrow> jsstring \<Rightarrow> plugin_state \<Rightarrow> jsstring list" where
  "cachedAssignments activeExperiments sk st =
     List.map_filter
       (\<lambda>ex. case assignmentCache st (compositeKey sk (experiment_id ex)) of
                Some variant \<Rightarrow> Some (experiment_id ex @ [61] @ variant_id variant)
              | None \<Rightarrow> None)
       activeExperiments"

definition agent_end :: "AbTestExperiment list \<Rightarrow> HookContext \<Rightarrow> plugin_state \<Rightarrow> plugin_state" where
  "agent_end activeExperiments ctx st =
     (case (case ctx_sessionKey ctx of Some k \<Rightarrow> Some k | None \<Rightarrow> ctx_sessionId ctx) of
        None \<Rightarrow> st
      | Some sk \<Rightarrow>
          (if sk = [] then st
           else
             let assignments = cachedAssignments activeExperiments sk st
             in if length assignments > 0
                then st\<lparr>logger := logger st @ [reportLine sk assignments]\<rparr>
                else st))"

subsection \<open>Registration\<close>

text \<open>
  The callback of the first \<open>filter\<close> in \<open>register\<close>: the flag it returns and the
  warning it logs (34 is the double quote, 8212 the dash of the message).
\<close>

definition missingIdWarning :: log_entry where
  "missingIdWarning = (Warn, js ''prompt-ab-test: skipping experiment with missing id'')"

definition noVariantsWarning :: "jsstring \<Rightarrow> log_entry" where
  "noVariantsWarning i =
     (Warn, js ''prompt-ab-test: skipping experiment '' @ [34] @ i @ [34, 32, 8212, 32]
            @ js ''must have at least one variant'')"

definition validateEntry :: "RawExperiment option \<Rightarrow> bool \<times> log_entry list" where
  "validateEntry entry =
     (case entry of
        None \<Rightarrow> (False, [missingIdWarning])
      | Some ex \<Rightarrow>
          (case raw_id ex of
             None \<Rightarrow> (False, [missingIdWarning])
           | Some i \<Rightarrow>
               (if trim i = [] then (False, [missingIdWarning])
                else
                  (case raw_variants ex of
                     None \<Rightarrow> (False, [noVariantsWarning i])
                   | Some vs \<Rightarrow>
                       (if length vs = 0 then (False, [noVariantsWarning i])
                        else (True, []))))))"

text \<open>
  The type guard \<open>exp is AbTestExperiment\<close>: an entry with a string id and an array of
  variants, read at the type the rest of the code gives it.
\<close>

definition asExperiment :: "RawExperiment option \<Rightarrow> AbTestExperiment option" where
  "asExperiment entry =
     (case entry of
        None \<Rightarrow> None
      | Some ex \<Rightarrow>
          (case raw_id ex of
             None \<Rightarrow> None
           | Some i \<Rightarrow>
               (case raw_variants ex of
                  None \<Rightarrow> None
                | Some vs \<Rightarrow>
                    Some \<lparr>experiment_id = i, description = raw_description ex,
                          enabled = raw_enabled ex, variants = vs,
                          agentIds = raw_agentIds ex\<rparr>)))"

text \<open>\<open>(api.pluginConfig ?? {}).experiments ?? []\<close>\<close>

definition configured :: "PromptAbTestConfig option \<Rightarrow> RawExperiment option list" where
  "configured pluginConfig =
     (case pluginConfig of
        None \<Rightarrow> []
      | Some cfg \<Rightarrow> (case experiments cfg of None \<Rightarrow> [] | Some es \<Rightarrow> es))"

definition validExperiments :: "PromptAbTestConfig option \<Rightarrow> AbTestExperiment list" where
  "validExperiments pluginConfig =
     List.map_filter asExperiment (filter (\<lambda>e. fst (validateEntry e)) (configured pluginConfig))"

definition validationLog :: "PromptAbTestConfig option \<Rightarrow> log_entry list" where
  "validationLog pluginConfig = concat (map (\<lambda>e. snd (validateEntry e)) (configured pluginConfig))"

definition activeExperiments :: "PromptAbTestConfig option \<Rightarrow> AbTestExperiment list" where
  "activeExperiments pluginConfig =
     filter (\<lambda>ex. enabled ex \<noteq> Some False) (validExperiments pluginConfig)"

datatype hook = BeforePromptBuild | AgentEnd | GatewayStart

record registration =
  reg_logger :: "log_entry list"
  reg_hooks :: "hook list"

text \<open>
  \<open>register\<close>: what it logs and the hooks it registers with \<open>api.on\<close>, in order. (The
  \<open>gateway_start\<close> handler only logs a summary of the configuration and is not
  modelled further.)
\<close>

definition idleNotice :: log_entry where
  "idleNotice = (Info, js ''prompt-ab-test: no active experiments configured, plugin is idle'')"

definition loadedNotice :: "AbTestExperiment list \<Rightarrow> log_entry" where
  "loadedNotice active =
     (Info, js ''prompt-ab-test: loaded '' @ decimal (length active)
            @ js '' active experiment(s): '' @ join (js '', '') (map experiment_id active))"

definition register :: "PromptAbTestConfig option \<Rightarrow> registration" where
  "register pluginConfig =
     (let active = activeExperiments pluginConfig
      in if length active = 0
         then \<lparr>reg_logger = validationLog pluginConfig @ [idleNotice], reg_hooks = []\<rparr>
         else \<lparr>reg_logger = validationLog pluginConfig @ [loadedNotice active],
               reg_hooks = [BeforePromptBuild, AgentEnd, GatewayStart]\<rparr>)"

section \<open>The specification's wording and the test suite\<close>

subsection \<open>The hash as the specification words it\<close>

text \<open>
  The recurrence of the specification, on unbounded integers: the accumulator times 33,
  xor the code unit, truncated to 32 bits.
\<close>

definition djb2_xor_step :: "int \<Rightarrow> 16 word \<Rightarrow> int" where
  "djb2_xor_step acc c = ((acc * 33) XOR uint c) mod 2 ^ 32"

definition djb2_xor :: "jsstring \<Rightarrow> int" where
  "djb2_xor s = foldl djb2_xor_step 5381 s"

subsection \<open>The selection as the specification words it\<close>

text \<open>
  The running sums that the loop of \<open>selectVariant\<close> compares the position with, and
  the first variant, in list order, whose cumulative weight exceeds the position, if
  there is one.
\<close>

fun cumulativeWeights :: "jsnum \<Rightarrow> jsnum list \<Rightarrow> jsnum list" where
  "cumulativeWeights c [] = []"
| "cumulativeWeights c (w # ws) = dadd c w # cumulativeWeights (dadd c w) ws"

definition firstExceeding :: "jsnum \<Rightarrow> PromptVariant list \<Rightarrow> PromptVariant option" where
  "firstExceeding position vs =
     map_option fst
       (List.find (\<lambda>(v, cumulative). dlt position cumulative)
          (zip vs (cumulativeWeights (Num 0) (map effectiveWeight vs))))"

subsection \<open>The composition as the specification words it\<close>

text \<open>
  The qualifying experiments are those the \<open>agentIds\<close> filter lets through; each gets
  its assigned variant from the store, in order; the overlay is read off the list of
  assigned variants: the system prompt of the last variant that has a non-empty one, and
  the non-empty trimmed contexts joined by a blank line.
\<close>

definition qualifying :: "jsstring option \<Rightarrow> AbTestExperiment list \<Rightarrow> AbTestExperiment list" where
  "qualifying agentId exps = filter (\<lambda>ex. \<not> skippedFor agentId ex) exps"

fun assignedVariants ::
    "plugin_state \<Rightarrow> jsstring \<Rightarrow> AbTestExperiment list \<Rightarrow> (error + PromptVariant list) \<times> plugin_state" where
  "assignedVariants st sk [] = (Inr [], st)"
| "assignedVariants st sk (ex # rest) =
     (case getVariantForSession st sk ex of
        (Inl err, st') \<Rightarrow> (Inl err, st')
      | (Inr v, st') \<Rightarrow>
          (case assignedVariants st' sk rest of
             (Inl err, st'') \<Rightarrow> (Inl err, st'')
           | (Inr vs, st'') \<Rightarrow> (Inr (v # vs), st'')))"

definition lastSystemPrompt :: "PromptVariant list \<Rightarrow> jsstring option" where
  "lastSystemPrompt vs =
     (let overriding = filter (\<lambda>v. truthy (systemPrompt v)) vs
      in if overriding = [] then None else systemPrompt (last overriding))"

definition trimmedContexts :: "PromptVariant list \<Rightarrow> jsstring list" where
  "trimmedContexts vs = filter (\<lambda>t. t \<noteq> []) (List.map_filter trimmedContext vs)"

definition composedOverlay :: "PromptVariant list \<Rightarrow> Overlay option" where
  "composedOverlay vs =
     (if lastSystemPrompt vs = None \<and> trimmedContexts vs = [] then None
      else Some \<lparr>out_systemPrompt = lastSystemPrompt vs,
                 out_prependContext =
                   (if trimmedContexts vs = [] then None
                    else Some (join [10, 10] (trimmedContexts vs)))\<rparr>)"

subsection \<open>The entries the registration keeps\<close>

text \<open>
  A single test on the raw entry: a string id that is not empty once trimmed, a
  non-empty array of variants, and \<open>enabled\<close> not \<open>false\<close>.
\<close>

definition keptEntry :: "RawExperiment option \<Rightarrow> bool" where
  "keptEntry entry =
     (case entry of
        None \<Rightarrow> False
      | Some ex \<Rightarrow>
          (case raw_id ex of None \<Rightarrow> False | Some i \<Rightarrow> trim i \<noteq> [])
          \<and> (case raw_variants ex of None \<Rightarrow> False | Some vs \<Rightarrow> vs \<noteq> [])
          \<and> raw_enabled ex \<noteq> Some False)"

text \<open>
  The same test with the id only required to be a non-empty string.
\<close>

definition nonEmptyIdEntry :: "RawExperiment option \<Rightarrow> bool" where
  "nonEmptyIdEntry entry =
     (case entry of
        None \<Rightarrow> False
      | Some ex \<Rightarrow>
          (case raw_id ex of None \<Rightarrow> False | Some i \<Rightarrow> i \<noteq> [])
          \<and> (case raw_variants ex of None \<Rightarrow> False | Some vs \<Rightarrow> vs \<noteq> [])
          \<and> raw_enabled ex \<noteq> Some False)"

subsection \<open>The invariant of the assignment cache\<close>

text \<open>
  Every entry was computed by \<open>assignVariant\<close> for some session key and some active
  experiment whose composite key it is stored under.
\<close>

definition cacheSound :: "AbTestExperiment list \<Rightarrow> plugin_state \<Rightarrow> bool" where
  "cacheSound exps st =
     (\<forall>key v. assignmentCache st key = Some v \<longrightarrow>
        (\<exists>sk ex. ex \<in> set exps \<and> key = compositeKey sk (experiment_id ex)
                 \<and> assignVariant sk (experiment_id ex) (variants ex) = Inr v))"

subsection \<open>Concrete configurations, requests and states\<close>

text \<open>
  Variants, experiments and requests in the style of the test suite, from ASCII
  literals and from the value of the weight.
\<close>

definition plainVariant :: "string \<Rightarrow> rat option \<Rightarrow> PromptVariant" where
  "plainVariant i w =
     \<lparr>variant_id = js i, weight = map_option Num w, prependContext = None, systemPrompt = None\<rparr>"

definition contextVariant :: "string \<Rightarrow> rat option \<Rightarrow> string \<Rightarrow> PromptVariant" where
  "contextVariant i w c =
     \<lparr>variant_id = js i, weight = map_option Num w, prependContext = Some (js c),
      systemPrompt = None\<rparr>"

definition promptVariant :: "string \<Rightarrow> rat option \<Rightarrow> string \<Rightarrow> PromptVariant" where
  "promptVariant i w p =
     \<lparr>variant_id = js i, weight = map_option Num w, prependContext = None,
      systemPrompt = Some (js p)\<rparr>"

definition experimentOf :: "string \<Rightarrow> PromptVariant list \<Rightarrow> jsstring list option \<Rightarrow> AbTestExperiment" where
  "experimentOf i vs ids =
     \<lparr>experiment_id = js i, description = None, enabled = None, variants = vs, agentIds = ids\<rparr>"

definition rawEntry :: "string \<Rightarrow> bool option \<Rightarrow> PromptVariant list \<Rightarrow> RawExperiment option" where
  "rawEntry i en vs =
     Some \<lparr>raw_id = Some (js i), raw_description = None, raw_enabled = en,
           raw_variants = Some vs, raw_agentIds = None\<rparr>"

definition configOf :: "RawExperiment option list \<Rightarrow> PromptAbTestConfig option" where
  "configOf entries = Some \<lparr>experiments = Some entries\<rparr>"

definition sessionContext :: "string \<Rightarrow> HookContext" where
  "sessionContext k = \<lparr>ctx_sessionKey = Some (js k), ctx_sessionId = None, ctx_agentId = None\<rparr>"

definition agentContext :: "string \<Rightarrow> string \<Rightarrow> HookContext" where
  "agentContext k a = \<lparr>ctx_sessionKey = Some (js k), ctx_sessionId = None, ctx_agentId = Some (js a)\<rparr>"

definition emptyContext :: HookContext where
  "emptyContext = \<lparr>ctx_sessionKey = None, ctx_sessionId = None, ctx_agentId = None\<rparr>"

text \<open>
  A pool whose first variant is disabled by weight 0.
\<close>

definition zeroFirstPool :: "PromptVariant list" where
  "zeroFirstPool = [plainVariant ''never'' (Some 0), plainVariant ''always'' (Some 1)]"

text \<open>
  A pool whose total weight is the smallest positive double, and a pool of weights 29
  and 71.
\<close>

definition tinyPool :: "PromptVariant list" where
  "tinyPool = [plainVariant ''never'' (Some 0), plainVariant ''always'' (Some minSubnormal)]"

definition percentPool :: "PromptVariant list" where
  "percentPool = [plainVariant ''a'' (Some 29), plainVariant ''b'' (Some 71)]"

text \<open>
  Four experiments: a forced context, a forced system prompt, one restricted to another
  agent, and a second forced context.
\<close>

definition mergeExperiments :: "AbTestExperiment list" where
  "mergeExperiments =
     [experimentOf ''tone-test''
        [contextVariant ''formal'' (Some 1) ''  Use formal language. '', plainVariant ''control'' (Some 0)]
        None,
      experimentOf ''full-prompt-test''
        [plainVariant ''control'' (Some 0), promptVariant ''variant-b'' (Some 1) ''You are a coder.'']
        None,
      experimentOf ''agent-filtered''
        [contextVariant ''active'' (Some 1) ''INJECTED'']
        (Some [js ''allowed-agent'']),
      experimentOf ''brevity-test''
        [plainVariant ''control'' (Some 0), contextVariant ''brief'' (Some 1) ''Keep replies short.'']
        None]"

text \<open>
  Two experiments whose ids differ, one of them with a colon in it.
\<close>

definition collidingExperiments :: "AbTestExperiment list" where
  "collidingExperiments =
     [experimentOf ''c'' [plainVariant ''of-c'' None] None,
      experimentOf ''b:c'' [plainVariant ''of-b:c'' None] None]"

text \<open>
  One experiment and a state in which a session has its assignment cached.
\<close>

definition logExperiment :: AbTestExperiment where
  "logExperiment =
     \<lparr>experiment_id = js ''exp-log'', description = None, enabled = None,
      variants = [plainVariant ''control'' (Some 0), plainVariant ''variant-a'' (Some 1)],
      agentIds = None\<rparr>"

definition cachedState :: plugin_state where
  "cachedState =
     \<lparr>assignmentCache = [js ''sess-1:exp-log'' \<mapsto> plainVariant ''variant-a'' (Some 1)],
      logger = []\<rparr>"

subsection \<open>The ratio test of the test suite\<close>

text \<open>
  The test "roughly honours weight ratios over many seeds" of index.test.ts: the pool,
  the number of seeds from 0 to 9999 for which the selected variant's id is
  \<open>heavy\<close>, and \<open>heavyRatio = counts.heavy / 10_000\<close>.
\<close>

definition ratioPool :: "PromptVariant list" where
  "ratioPool = [plainVariant ''heavy'' (Some 9), plainVariant ''light'' (Some 1)]"

definition selectsHeavy :: "nat \<Rightarrow> bool" where
  "selectsHeavy seed =
     (case selectVariant ratioPool (int seed) of
        Inl err \<Rightarrow> False
      | Inr v \<Rightarrow> variant_id v = js ''heavy'')"

definition heavyCount :: nat where
  "heavyCount = length (filter selectsHeavy [0..<10000])"

definition heavyRatio :: rat where
  "heavyRatio = of_nat heavyCount / 10000"

section \<open>Properties\<close>

subsection \<open>Rounding to a double\<close>

declare ilog2.simps [simp del]

lemma ilog2_nonneg: "0 \<le> ilog2 n"
proof (induction n rule: ilog2.induct)
  case (1 n)
  then show ?case
    by (subst ilog2.simps) simp
qed

lemma ilog2_bounds:
  "1 \<le> n \<Longrightarrow> 2 ^ nat (ilog2 n) \<le> n \<and> n < 2 ^ nat (ilog2 n + 1)"
proof (induction n rule: ilog2.induct)
  case (1 n)
  show ?case
  proof (cases "n < 2")
    case True
    with "1.prems" have "n = 1" by simp
    then show ?thesis
      by (subst (1 2) ilog2.simps) simp
  next
    case False
    then have half: "1 \<le> n div 2" by simp
    from "1.IH" [OF False half]
    have lo: "2 ^ nat (ilog2 (n div 2)) \<le> n div 2"
      and hi: "n div 2 < 2 ^ nat (ilog2 (n div 2) + 1)"
      by simp_all
    have unfold: "ilog2 n = ilog2 (n div 2) + 1"
      using False by (subst ilog2.simps) simp
    have nn: "0 \<le> ilog2 (n div 2)" by (rule ilog2_nonneg)
    have e1: "nat (ilog2 (n div 2) + 1) = Suc (nat (ilog2 (n div 2)))"
      using nn by simp
    have e2: "nat (ilog2 (n div 2) + 1 + 1) = Suc (Suc (nat (ilog2 (n div 2))))"
      using nn by simp
    have "2 * 2 ^ nat (ilog2 (n div 2)) \<le> 2 * (n div 2)"
      using lo by simp
    also have "\<dots> \<le> n" by simp
    finally have a: "2 ^ nat (ilog2 n) \<le> n"
      by (simp add: unfold e1)
    have "n div 2 + 1 \<le> 2 ^ Suc (nat (ilog2 (n div 2)))"
      using hi by (simp add: e1)
    then have "2 * (n div 2) + 2 \<le> 2 * 2 ^ Suc (nat (ilog2 (n div 2)))"
      by simp
    moreover have "n < 2 * (n div 2) + 2"
      by presburger
    ultimately have "n < 2 * 2 ^ Suc (nat (ilog2 (n div 2)))"
      by linarith
    then have b: "n < 2 ^ nat (ilog2 n + 1)"
      by (simp only: unfold e2 power_Suc)
    from a b show ?thesis by simp
  qed
qed

lemma floorLog2_bounds:
  assumes "0 < x"
  shows "2 powi (floorLog2 x) \<le> x \<and> x < 2 powi (floorLog2 x + 1)"
proof (cases "1 \<le> x")
  case True
  define n where "n = nat \<lfloor>x\<rfloor>"
  have fl: "floorLog2 x = ilog2 n"
    using True by (simp add: floorLog2_def n_def)
  have n1: "1 \<le> n"
    using True by (simp add: n_def le_nat_iff le_floor_iff)
  have nx: "of_nat n \<le> x" and xn: "x < of_nat n + 1"
  proof -
    have "0 \<le> \<lfloor>x\<rfloor>" using True by simp
    then have "(of_nat n :: rat) = of_int \<lfloor>x\<rfloor>"
      by (simp add: n_def)
    then show "of_nat n \<le> x" and "x < of_nat n + 1"
      using floor_correct [of x] by simp_all
  qed
  from ilog2_bounds [OF n1] have lo: "2 ^ nat (ilog2 n) \<le> n" and hi: "n + 1 \<le> 2 ^ nat (ilog2 n + 1)"
    by simp_all
  have nn: "0 \<le> ilog2 n" by (rule ilog2_nonneg)
  have "(2::rat) powi (ilog2 n) = 2 ^ nat (ilog2 n)"
    using nn by (simp add: power_int_nonneg_exp)
  also have "\<dots> = of_nat (2 ^ nat (ilog2 n))" by simp
  also have "\<dots> \<le> of_nat n" using lo by (simp only: of_nat_le_iff)
  finally have a: "2 powi (ilog2 n) \<le> x" using nx by simp
  have "x < of_nat (n + 1)" using xn by simp
  also have "\<dots> \<le> of_nat (2 ^ nat (ilog2 n + 1))" using hi by (simp only: of_nat_le_iff)
  also have "\<dots> = (2::rat) ^ nat (ilog2 n + 1)" by simp
  also have "\<dots> = 2 powi (ilog2 n + 1)"
    using nn by (simp add: power_int_nonneg_exp)
  finally have b: "x < 2 powi (ilog2 n + 1)" .
  from a b show ?thesis by (simp add: fl)
next
  case False
  define y where "y = 1 / x"
  define m where "m = nat (\<lceil>y\<rceil> - 1)"
  have y1: "1 < y" using False assms by (simp add: y_def)
  have fl: "floorLog2 x = - (ilog2 m + 1)"
    using False by (simp add: floorLog2_def m_def y_def)
  have c2: "2 \<le> \<lceil>y\<rceil>"
    using y1 by (simp add: le_ceiling_iff)
  then have m1: "1 \<le> m" unfolding m_def by linarith
  have my: "of_nat m < y" and ym: "y \<le> of_nat m + 1"
  proof -
    have "0 \<le> \<lceil>y\<rceil> - 1"
      using c2 by linarith
    then have "(of_nat m :: rat) = of_int (\<lceil>y\<rceil> - 1)"
      unfolding m_def by (simp only: of_nat_nat)
    then have "(of_nat m :: rat) = of_int \<lceil>y\<rceil> - 1"
      by simp
    then show "of_nat m < y" and "y \<le> of_nat m + 1"
      by (simp_all add: ceiling_correct)
  qed
  from ilog2_bounds [OF m1] have lo: "2 ^ nat (ilog2 m) \<le> m" and hi: "m + 1 \<le> 2 ^ nat (ilog2 m + 1)"
    by simp_all
  have nn: "0 \<le> ilog2 m" by (rule ilog2_nonneg)
  have "(2::rat) powi (ilog2 m) = of_nat (2 ^ nat (ilog2 m))"
    using nn by (simp add: power_int_nonneg_exp)
  also have "\<dots> \<le> of_nat m" using lo by (simp only: of_nat_le_iff)
  finally have ylo: "2 powi (ilog2 m) < y" using my by simp
  have "y \<le> of_nat (m + 1)" using ym by simp
  also have "\<dots> \<le> of_nat (2 ^ nat (ilog2 m + 1))" using hi by (simp only: of_nat_le_iff)
  also have "\<dots> = (2::rat) powi (ilog2 m + 1)"
    using nn by (simp add: power_int_nonneg_exp)
  finally have yhi: "y \<le> 2 powi (ilog2 m + 1)" .
  have x_inv: "x = 1 / y" using assms by (simp add: y_def)
  have p1: "(0::rat) < 2 powi (ilog2 m + 1)" and p0: "(0::rat) < 2 powi (ilog2 m)"
    by simp_all
  have inv1: "(2::rat) powi (- (ilog2 m + 1)) = 1 / 2 powi (ilog2 m + 1)"
    by (rule power_int_minus_divide)
  have "- (ilog2 m + 1) + 1 = - ilog2 m" by simp
  then have inv0: "(2::rat) powi (- (ilog2 m + 1) + 1) = 1 / 2 powi (ilog2 m)"
    by (simp only: power_int_minus_divide)
  have "1 / (2 powi (ilog2 m + 1)) \<le> 1 / y"
    using yhi y1 by (simp add: frac_le)
  then have a: "2 powi (- (ilog2 m + 1)) \<le> x"
    by (simp only: x_inv inv1)
  have "1 / y < 1 / (2 powi (ilog2 m))"
    using ylo p0 by (simp add: frac_less2)
  then have b: "x < 2 powi (- (ilog2 m + 1) + 1)"
    by (simp only: x_inv inv0)
  from a b show ?thesis by (simp add: fl)
qed

lemma p2_mono: "a \<le> b \<Longrightarrow> (2::rat) powi a \<le> 2 powi b"
  by (rule power_int_increasing) simp_all

lemma p2_less_imp: "(2::rat) powi a < 2 powi b \<Longrightarrow> a < b"
  using p2_mono [of b a] by (cases "a < b") simp_all

lemma p2_add: "(2::rat) powi (a + b) = 2 powi a * 2 powi b"
  by (rule power_int_add) simp

lemma p2_int: "0 \<le> k \<Longrightarrow> (2::rat) powi k = of_int (2 ^ nat k)"
  by (simp add: power_int_nonneg_exp)

lemma floorLog2_ge:
  assumes "0 < x" and "2 powi k \<le> x"
  shows "k \<le> floorLog2 x"
proof -
  have "(2::rat) powi k < 2 powi (floorLog2 x + 1)"
    using assms floorLog2_bounds [of x] by linarith
  then have "k < floorLog2 x + 1"
    by (rule p2_less_imp)
  then show ?thesis by simp
qed

lemma floorLog2_less:
  assumes "0 < x" and "x < 2 powi k"
  shows "floorLog2 x < k"
proof -
  have "(2::rat) powi (floorLog2 x) < 2 powi k"
    using assms floorLog2_bounds [of x] by linarith
  then show ?thesis
    by (rule p2_less_imp)
qed

lemma floorLog2_p2: "floorLog2 (2 powi k) = k"
proof -
  have pos: "(0::rat) < 2 powi k" by simp
  have "k \<le> floorLog2 (2 powi k)"
    using pos by (rule floorLog2_ge) simp
  moreover have "floorLog2 (2 powi k) < k + 1"
    using pos by (rule floorLog2_less) (simp add: power_int_strict_increasing)
  ultimately show ?thesis by simp
qed

lemma roundHalfEven_of_int: "roundHalfEven (of_int n) = n"
  by (simp add: roundHalfEven_def)

lemma roundHalfEven_le:
  assumes "x \<le> of_int N"
  shows "roundHalfEven x \<le> N"
proof (cases "x = of_int N")
  case True
  then show ?thesis by (simp add: roundHalfEven_of_int)
next
  case False
  with assms have "x < of_int N" by simp
  then have "\<lfloor>x\<rfloor> < N" by (simp add: floor_less_iff)
  moreover have "roundHalfEven x \<le> \<lfloor>x\<rfloor> + 1"
    by (simp add: roundHalfEven_def Let_def)
  ultimately show ?thesis by simp
qed

lemma roundHalfEven_ge:
  assumes "of_int N \<le> x"
  shows "N \<le> roundHalfEven x"
proof -
  have "N \<le> \<lfloor>x\<rfloor>" using assms by (simp add: le_floor_iff)
  moreover have "\<lfloor>x\<rfloor> \<le> roundHalfEven x"
    by (simp add: roundHalfEven_def Let_def)
  ultimately show ?thesis by simp
qed

lemma roundHalfEven_small:
  assumes "\<bar>x\<bar> \<le> 1 / 2"
  shows "roundHalfEven x = 0"
proof (cases "0 \<le> x")
  case True
  with assms have fl: "\<lfloor>x\<rfloor> = 0"
    by (simp add: floor_eq_iff)
  with assms True show ?thesis
    by (simp add: roundHalfEven_def Let_def)
next
  case False
  with assms have fl: "\<lfloor>x\<rfloor> = - 1"
    by (simp add: floor_eq_iff)
  from assms False have "x - of_int (- 1 :: int) \<ge> 1 / 2"
    by simp
  with fl show ?thesis
    by (simp add: roundHalfEven_def Let_def)
qed


lemma quantumOf_pos: "0 < quantumOf x"
  by (simp add: quantumOf_def)

lemma p2_split:
  assumes "e - 52 \<le> b"
  shows "(2::rat) powi b = of_int (2 ^ nat (b - (e - 52))) * 2 powi (e - 52)"
proof -
  have "(2::rat) powi b = 2 powi ((b - (e - 52)) + (e - 52))" by simp
  also have "\<dots> = 2 powi (b - (e - 52)) * 2 powi (e - 52)" by (rule p2_add)
  also have "2 powi (b - (e - 52)) = (of_int (2 ^ nat (b - (e - 52))) :: rat)"
    using assms by (intro p2_int) simp
  finally show ?thesis .
qed

lemma roundedValue_le_neg:
  assumes "x \<le> - (2 powi b)" and "exponentOf x - 52 \<le> b"
  shows "roundedValue x \<le> - (2 powi b)"
proof -
  define q where "q = quantumOf x"
  define N :: int where "N = 2 ^ nat (b - (exponentOf x - 52))"
  have q: "0 < q" by (simp add: q_def quantumOf_pos)
  have split: "2 powi b = of_int N * q"
    unfolding N_def q_def quantumOf_def using assms(2) by (rule p2_split)
  have "x \<le> of_int (- N) * q"
    using assms(1) by (simp add: split)
  then have "x / q \<le> of_int (- N)"
    using q by (simp only: pos_divide_le_eq)
  then have "roundHalfEven (x / q) \<le> - N"
    by (rule roundHalfEven_le)
  then have "(of_int (roundHalfEven (x / q)) :: rat) \<le> of_int (- N)"
    by (simp only: of_int_le_iff)
  then have "of_int (roundHalfEven (x / q)) * q \<le> of_int (- N) * q"
    using q by (simp only: mult_le_cancel_right_pos)
  then show ?thesis
    by (simp add: roundedValue_def q_def [symmetric] split)
qed

lemma roundedValue_le_pos:
  assumes "x \<le> 2 powi b" and "exponentOf x - 52 \<le> b"
  shows "roundedValue x \<le> 2 powi b"
proof -
  define q where "q = quantumOf x"
  define N :: int where "N = 2 ^ nat (b - (exponentOf x - 52))"
  have q: "0 < q" by (simp add: q_def quantumOf_pos)
  have split: "2 powi b = of_int N * q"
    unfolding N_def q_def quantumOf_def using assms(2) by (rule p2_split)
  have "x \<le> of_int N * q"
    using assms(1) by (simp add: split)
  then have "x / q \<le> of_int N"
    using q by (simp only: pos_divide_le_eq)
  then have "roundHalfEven (x / q) \<le> N"
    by (rule roundHalfEven_le)
  then have "(of_int (roundHalfEven (x / q)) :: rat) \<le> of_int N"
    by (simp only: of_int_le_iff)
  then have "of_int (roundHalfEven (x / q)) * q \<le> of_int N * q"
    using q by (simp only: mult_le_cancel_right_pos)
  then show ?thesis
    by (simp add: roundedValue_def q_def [symmetric] split)
qed

lemma roundedValue_nonneg:
  assumes "0 \<le> x"
  shows "0 \<le> roundedValue x"
proof -
  have "of_int 0 \<le> x / quantumOf x"
    using assms quantumOf_pos [of x] by simp
  then have "0 \<le> roundHalfEven (x / quantumOf x)"
    by (rule roundHalfEven_ge)
  then show ?thesis
    using quantumOf_pos [of x] by (simp add: roundedValue_def)
qed

lemma exponentOf_ge:
  assumes "x \<noteq> 0" and "2 powi k \<le> \<bar>x\<bar>"
  shows "k \<le> exponentOf x"
proof -
  have "k \<le> floorLog2 \<bar>x\<bar>"
    using assms by (intro floorLog2_ge) simp_all
  then show ?thesis by (simp add: exponentOf_def)
qed

lemma exponentOf_normal:
  assumes "x \<noteq> 0"
  shows "exponentOf x = - 1022 \<or> 2 powi (exponentOf x) \<le> \<bar>x\<bar>"
proof (cases "floorLog2 \<bar>x\<bar> \<le> - 1022")
  case True
  then show ?thesis by (simp add: exponentOf_def)
next
  case False
  then have "exponentOf x = floorLog2 \<bar>x\<bar>"
    by (simp add: exponentOf_def)
  moreover have "2 powi (floorLog2 \<bar>x\<bar>) \<le> \<bar>x\<bar>"
    using assms floorLog2_bounds [of "\<bar>x\<bar>"] by simp
  ultimately show ?thesis by simp
qed

lemma roundToDouble_negative:
  assumes "- 1074 \<le> k" and "x \<le> - (2 powi k)"
  shows "roundToDouble x = NegInf \<or> (\<exists>y. roundToDouble x = Num y \<and> y \<le> - (2 powi k))"
proof -
  have pk: "(0::rat) < 2 powi k" by simp
  with assms(2) have neg: "x < 0" by linarith
  then have x0: "x \<noteq> 0" by simp
  from assms(2) neg have big: "2 powi k \<le> \<bar>x\<bar>" by simp
  have bound: "roundedValue x \<le> - (2 powi k)"
  proof (cases "exponentOf x - 52 \<le> k")
    case True
    with assms(2) show ?thesis by (rule roundedValue_le_neg)
  next
    case False
    with assms(1) have "exponentOf x \<noteq> - 1022" by simp
    with exponentOf_normal [OF x0] have "2 powi (exponentOf x) \<le> \<bar>x\<bar>" by simp
    with neg have "x \<le> - (2 powi (exponentOf x))" by simp
    then have "roundedValue x \<le> - (2 powi (exponentOf x))"
      by (rule roundedValue_le_neg) simp
    moreover have "(2::rat) powi k \<le> 2 powi (exponentOf x)"
      using False by (intro p2_mono) simp
    ultimately show ?thesis by linarith
  qed
  with pk have "roundedValue x \<noteq> 0" by linarith
  with neg x0 bound show ?thesis
    by (simp add: roundToDouble_def)
qed

lemma roundToDouble_bounded:
  assumes "- 1074 \<le> k" and "k \<le> 1023" and "0 < x" and "x \<le> 2 powi k"
  shows "\<exists>y. roundToDouble x = Num y \<and> 0 \<le> y \<and> y \<le> 2 powi k"
proof -
  have "x < 2 powi (k + 1)"
  proof -
    have "(2::rat) powi k < 2 powi (k + 1)"
      by (rule power_int_strict_increasing) simp_all
    with assms(4) show ?thesis by linarith
  qed
  then have "floorLog2 \<bar>x\<bar> < k + 1"
    using assms(3) by (intro floorLog2_less) simp_all
  with assms(1) have "exponentOf x - 52 \<le> k"
    by (simp add: exponentOf_def)
  with assms(4) have upper: "roundedValue x \<le> 2 powi k"
    by (rule roundedValue_le_pos)
  have lower: "0 \<le> roundedValue x"
    using assms(3) by (intro roundedValue_nonneg) simp
  have "(2::rat) powi k < 2 powi 1024"
    using assms(2) by (intro power_int_strict_increasing) simp_all
  with upper lower have "\<not> 2 powi 1024 \<le> \<bar>roundedValue x\<bar>"
    by simp
  with assms(3) upper lower show ?thesis
    by (auto simp: roundToDouble_def)
qed

lemma roundToDouble_positive:
  assumes "0 < x"
  shows "roundToDouble x = PosInf \<or> (\<exists>y. roundToDouble x = Num y \<and> 0 \<le> y)"
proof -
  have "0 \<le> roundedValue x"
    using assms by (intro roundedValue_nonneg) simp
  with assms show ?thesis
    by (auto simp: roundToDouble_def)
qed

lemma roundToDouble_p2:
  assumes "- 1074 \<le> k" and "k \<le> 1023"
  shows "roundToDouble (2 powi k) = Num (2 powi k)"
proof -
  define x :: rat where "x = 2 powi k"
  have pos: "0 < x" by (simp add: x_def)
  have ex: "exponentOf x = max k (- 1022)"
    by (simp add: exponentOf_def x_def floorLog2_p2)
  with assms(1) have le: "exponentOf x - 52 \<le> k" by simp
  define N :: int where "N = 2 ^ nat (k - (exponentOf x - 52))"
  have "(2::rat) powi k = of_int N * 2 powi (exponentOf x - 52)"
    unfolding N_def using le by (rule p2_split)
  then have split: "x = of_int N * quantumOf x"
    by (simp only: x_def [symmetric] quantumOf_def)
  have "x / quantumOf x = of_int N"
    using quantumOf_pos [of x] by (subst split) simp
  then have "roundedValue x = x"
    using split by (simp add: roundedValue_def roundHalfEven_of_int)
  moreover have "x < 2 powi 1024"
    unfolding x_def using assms(2) by (intro power_int_strict_increasing) simp_all
  ultimately show ?thesis
    using pos by (simp add: roundToDouble_def x_def [symmetric])
qed

lemma roundToDouble_underflow:
  assumes "x \<noteq> 0" and "\<bar>x\<bar> \<le> 2 powi (- 1075)"
  shows "roundToDouble x = (if x < 0 then NegZero else Num 0)"
proof -
  have "(2::rat) powi (- 1075) < 2 powi (- 1074)"
    by (rule power_int_strict_increasing) simp_all
  with assms(2) have "\<bar>x\<bar> < 2 powi (- 1074)" by linarith
  then have "floorLog2 \<bar>x\<bar> < - 1074"
    using assms(1) by (intro floorLog2_less) simp_all
  then have ex: "exponentOf x = - 1022"
    by (simp add: exponentOf_def)
  then have q: "quantumOf x = 2 powi (- 1074)"
    by (simp add: quantumOf_def)
  have "(2::rat) powi (- 1075) = 2 powi (- 1 + - 1074)" by simp
  also have "\<dots> = 2 powi (- 1) * 2 powi (- 1074)" by (rule p2_add)
  finally have half: "(2::rat) powi (- 1075) = (1 / 2) * 2 powi (- 1074)"
    by (simp add: power_int_minus_divide)
  have "\<bar>x / quantumOf x\<bar> = \<bar>x\<bar> / 2 powi (- 1074)"
    by (simp add: q)
  also have "\<dots> \<le> ((1 / 2) * 2 powi (- 1074)) / 2 powi (- 1074)"
    using assms(2) unfolding half by (intro divide_right_mono) simp_all
  also have "\<dots> = 1 / 2" by simp
  finally have "roundHalfEven (x / quantumOf x) = 0"
    by (rule roundHalfEven_small)
  then have "roundedValue x = 0"
    by (simp add: roundedValue_def)
  with assms(1) show ?thesis
    by (simp add: roundToDouble_def)
qed

subsection \<open>Evaluating the arithmetic on numerals\<close>

text \<open>
  Rules that let the simplifier compute a rounding on concrete numbers: floors and
  ceilings of fractions of numerals, and the integer logarithm of a numeral.
\<close>

lemma floor_rat_numeral_div: "\<lfloor>(numeral a / numeral b :: rat)\<rfloor> = numeral a div numeral b"
  using floor_divide_of_int_eq [of "numeral a" "numeral b", where ?'a = rat] by simp

lemma floor_rat_neg_numeral_div: "\<lfloor>(- (numeral a / numeral b) :: rat)\<rfloor> = - numeral a div numeral b"
  using floor_divide_of_int_eq [of "- numeral a" "numeral b", where ?'a = rat] by simp

lemma floor_rat_one_div: "\<lfloor>(1 / numeral b :: rat)\<rfloor> = 1 div numeral b"
  using floor_divide_of_int_eq [of 1 "numeral b", where ?'a = rat] by simp

lemma floor_rat_neg_one_div: "\<lfloor>(- (1 / numeral b) :: rat)\<rfloor> = - 1 div numeral b"
  using floor_divide_of_int_eq [of "- 1" "numeral b", where ?'a = rat] by simp

lemma ceiling_rat_numeral_div: "\<lceil>(numeral a / numeral b :: rat)\<rceil> = - (- numeral a div numeral b)"
  unfolding ceiling_def by (simp only: floor_rat_neg_numeral_div)

lemma ceiling_rat_one_div: "\<lceil>(1 / numeral b :: rat)\<rceil> = - (- 1 div numeral b)"
  unfolding ceiling_def by (simp only: floor_rat_neg_one_div)

lemma ilog2_numeral:
  "ilog2 0 = 0" "ilog2 (Suc 0) = 0" "ilog2 1 = 0"
  "ilog2 (numeral (Num.Bit0 k)) = ilog2 (numeral k) + 1"
  "ilog2 (numeral (Num.Bit1 k)) = ilog2 (numeral k) + 1"
proof -
  show "ilog2 0 = 0" "ilog2 (Suc 0) = 0" "ilog2 1 = 0"
    by (simp_all add: ilog2.simps)
  have "numeral (Num.Bit0 k) div (2::nat) = numeral k"
    by simp
  moreover have "\<not> numeral (Num.Bit0 k) < (2::nat)"
    by simp
  ultimately show "ilog2 (numeral (Num.Bit0 k)) = ilog2 (numeral k) + 1"
    by (subst ilog2.simps) (simp only: if_False)
  have "numeral (Num.Bit1 k) div (2::nat) = numeral k"
    by simp
  moreover have "\<not> numeral (Num.Bit1 k) < (2::nat)"
    by simp
  ultimately show "ilog2 (numeral (Num.Bit1 k)) = ilog2 (numeral k) + 1"
    by (subst ilog2.simps) (simp only: if_False)
qed

lemmas double_eval =
  dadd_def dmul_def ddiv_def dlt_def dle_def mathMax0_def js_rem_def
  valueOf_def signbit_def isFinite_def signedZero_def signedInf_def
  roundToDouble_def roundedValue_def quantumOf_def exponentOf_def floorLog2_def
  roundHalfEven_def Let_def
  floor_rat_numeral_div floor_rat_neg_numeral_div floor_rat_one_div floor_rat_neg_one_div
  ceiling_rat_numeral_div ceiling_rat_one_div ilog2_numeral

text \<open>
  The arithmetic on known values: the doubles nearest to 0.1, 0.29 and one millionth,
  \<open>0.1 + 0.2 = 0.30000000000000004\<close>, \<open>0.29 * 100 = 28.999999999999996\<close>, divisions
  by zero, signed zeros, and remainders of negative dividends.
\<close>

lemma rounding_examples:
  "roundToDouble (1 / 10) = Num (3602879701896397 / 36028797018963968)"
  "roundToDouble (29 / 100) = Num (5224175567749775 / 18014398509481984)"
  "roundToDouble (- (1 / 1000000)) = Num (- (4722366482869645 / 4722366482869645213696))"
  "dadd (roundToDouble (1 / 10)) (roundToDouble (2 / 10)) = Num (1351079888211149 / 4503599627370496)"
  "dmul (roundToDouble (29 / 100)) (Num 100) = Num (8162774324609023 / 281474976710656)"
  "ddiv (Num 1) (Num 0) = PosInf" "ddiv (Num (- 1)) (Num 0) = NegInf" "ddiv (Num 0) (Num 0) = NaN"
  "dmul NegZero (Num 5) = NegZero" "dadd NegZero (Num 0) = Num 0" "dadd PosInf NegInf = NaN"
  "js_rem (- 1000000) 1000000 = NegZero" "js_rem (- 250000) 1000000 = Num (- 250000)"
  "js_rem 1250000 1000000 = Num 250000"
  by (simp_all add: double_eval)

text \<open>
  Rounding decides the selection: on the weights 29 and 71 the seed 290000 gives the
  position \<open>28.999999999999996\<close>, under the first cumulative weight 29, and the first
  variant is selected.
\<close>

lemma selectVariant_percentPool:
  "foldl dadd (Num 0) (map effectiveWeight percentPool) = Num 100
   \<and> seedPosition 290000 (Num 100) = Num (8162774324609023 / 281474976710656)
   \<and> selectVariant percentPool 290000 = Inr (plainVariant ''a'' (Some 29))"
  by (simp add: selectVariant_def seedPosition_def percentPool_def plainVariant_def
      effectiveWeight_def double_eval)

subsection \<open>hashString (claim C5)\<close>

lemma hash_step_djb2: "hash_step h c = djb2_xor_step h c"
proof -
  have "(ucast c :: 32 word) = word_of_int (uint c)"
    by simp
  then have "hash_step h c = uint (word_of_int (h * 33 XOR uint c) :: 32 word)"
    unfolding hash_step_def by (simp only: of_int_xor_eq)
  then show ?thesis
    by (simp add: djb2_xor_step_def uint_word_of_int)
qed

lemma hash_step_range: "0 \<le> hash_step h c \<and> hash_step h c < 2 ^ 32"
  using uint_lt2p [of "(word_of_int (h * 33) :: 32 word) XOR (ucast c :: 32 word)"]
  by (simp add: hash_step_def)

lemma foldl_hash_step_range:
  "0 \<le> h \<Longrightarrow> h < 2 ^ 32 \<Longrightarrow> 0 \<le> foldl hash_step h s \<and> foldl hash_step h s < 2 ^ 32"
proof (induction s arbitrary: h)
  case Nil
  then show ?case by simp
next
  case (Cons c s)
  show ?case
    using Cons.IH [of "hash_step h c"] hash_step_range [of h c] by simp
qed

text \<open>
  Claim C5. For every string, \<open>hashString\<close> is the djb2-xor recurrence: the
  accumulator starts at 5381 and each code unit, in order, turns it into the accumulator
  times 33, xor the code unit, truncated to unsigned 32 bits. The empty string hashes to
  5381, and every result is an integer in \<open>[0, 2^32)\<close>.
\<close>

theorem hashString_djb2_xor:
  "hashString s = djb2_xor s \<and> hashString [] = 5381
   \<and> 0 \<le> hashString s \<and> hashString s < 2 ^ 32"
proof -
  have "hash_step = djb2_xor_step"
    by (intro ext) (rule hash_step_djb2)
  then have "hashString s = djb2_xor s"
    by (simp add: hashString_def djb2_xor_def)
  moreover have "hashString [] = 5381"
    by (simp add: hashString_def)
  moreover have "0 \<le> hashString s \<and> hashString s < 2 ^ 32"
    unfolding hashString_def by (rule foldl_hash_step_range) simp_all
  ultimately show ?thesis by simp
qed

subsection \<open>selectVariant fails exactly on the empty list (claim C6)\<close>

lemma walk_member: "walk p c xs = Some v \<Longrightarrow> v \<in> fst ` set xs"
proof (induction xs arbitrary: c)
  case Nil
  then show ?case by simp
next
  case (Cons x xs)
  obtain u w where x: "x = (u, w)" by (cases x)
  show ?case
  proof (cases "dlt p (dadd c w)")
    case True
    with Cons.prems x show ?thesis by simp
  next
    case False
    with Cons.prems x have "walk p (dadd c w) xs = Some v" by simp
    then have "v \<in> fst ` set xs" by (rule Cons.IH)
    then show ?thesis by simp
  qed
qed

lemma fst_set_zip_map: "fst ` set (zip vs (map f vs)) = set vs"
  by (induction vs) simp_all

lemma selectVariant_member:
  assumes "vs \<noteq> []"
  shows "\<exists>v. selectVariant vs seed = Inr v \<and> v \<in> set vs"
proof -
  let ?tw = "foldl dadd (Num 0) (map effectiveWeight vs)"
  let ?found = "walk (seedPosition seed ?tw) (Num 0) (zip vs (map effectiveWeight vs))"
  have len: "length vs \<noteq> 0"
    using assms by simp
  have first: "vs ! 0 \<in> set vs" and final: "vs ! (length vs - 1) \<in> set vs"
    using assms by simp_all
  have unfolded: "selectVariant vs seed =
      (if dle ?tw (Num 0) then Inr (vs ! 0)
       else case ?found of Some v \<Rightarrow> Inr v | None \<Rightarrow> Inr (vs ! (length vs - 1)))"
    unfolding selectVariant_def Let_def using len by (simp only: if_False)
  show ?thesis
  proof (cases "dle ?tw (Num 0)")
    case True
    then have "selectVariant vs seed = Inr (vs ! 0)"
      by (simp only: unfolded if_True)
    with first show ?thesis by blast
  next
    case False
    show ?thesis
    proof (cases ?found)
      case None
      with False have "selectVariant vs seed = Inr (vs ! (length vs - 1))"
        by (simp only: unfolded if_False option.case)
      with final show ?thesis by blast
    next
      case (Some v)
      then have "v \<in> fst ` set (zip vs (map effectiveWeight vs))"
        by (rule walk_member)
      then have "v \<in> set vs"
        by (simp only: fst_set_zip_map)
      moreover from False Some have "selectVariant vs seed = Inr v"
        by (simp only: unfolded if_False option.case)
      ultimately show ?thesis by blast
    qed
  qed
qed

text \<open>
  Claim C6. \<open>selectVariant\<close> throws on the empty list, for every seed; on a non-empty
  list it returns, without error, an element of the list, so it fails exactly when the
  list is empty; on a one-element list it returns that element.
\<close>

theorem selectVariant_fails_iff_empty:
  "selectVariant [] seed = Inl EmptyVariants
   \<and> (vs \<noteq> [] \<longrightarrow> (\<exists>v. selectVariant vs seed = Inr v \<and> v \<in> set vs))
   \<and> ((\<exists>e. selectVariant vs seed = Inl e) \<longleftrightarrow> vs = [])
   \<and> selectVariant [v] seed = Inr v"
proof (intro conjI impI)
  show empty: "selectVariant [] seed = Inl EmptyVariants"
    by (simp add: selectVariant_def)
  show "\<exists>v. selectVariant vs seed = Inr v \<and> v \<in> set vs" if "vs \<noteq> []"
    using that by (rule selectVariant_member)
  show "(\<exists>e. selectVariant vs seed = Inl e) \<longleftrightarrow> vs = []"
  proof
    assume failed: "\<exists>e. selectVariant vs seed = Inl e"
    show "vs = []"
    proof (rule ccontr)
      assume "vs \<noteq> []"
      then obtain w where "selectVariant vs seed = Inr w"
        using selectVariant_member by blast
      with failed show False by simp
    qed
  next
    assume "vs = []"
    with empty show "\<exists>e. selectVariant vs seed = Inl e" by simp
  qed
  obtain w where "selectVariant [v] seed = Inr w" and "w \<in> set [v]"
    using selectVariant_member [of "[v]" seed] by blast
  then show "selectVariant [v] seed = Inr v"
    by simp
qed

text \<open>
  At seed 42: the empty list fails, a two-element pool gives one of its elements, a
  single variant is returned.
\<close>

theorem selectVariant_fails_iff_empty_witness:
  "selectVariant [] 42 = Inl EmptyVariants
   \<and> (\<exists>v. selectVariant zeroFirstPool 42 = Inr v \<and> v \<in> set zeroFirstPool)
   \<and> selectVariant [plainVariant ''solo'' (Some 1)] 42 = Inr (plainVariant ''solo'' (Some 1))"
proof -
  have "zeroFirstPool \<noteq> []"
    by (simp add: zeroFirstPool_def)
  with selectVariant_fails_iff_empty [of 42 zeroFirstPool "plainVariant ''solo'' (Some 1)"]
  show ?thesis by simp
qed

subsection \<open>Negative seeds (claims C10 and C4)\<close>

lemma dadd_NaN: "dadd NaN b = NaN" "dadd a NaN = NaN"
  by (simp_all add: dadd_def)

lemma foldl_dadd_NaN: "foldl dadd NaN ws = NaN"
  by (induction ws) (simp_all add: dadd_NaN)

lemma dle_NaN: "\<not> dle a NaN"
  by (simp add: dle_def)

lemma underflowBound_pos: "0 < underflowBound"
  by (simp add: underflowBound_def)

lemma minSubnormal_pos: "0 < minSubnormal"
  by (simp add: minSubnormal_def)

lemma js_rem_negative:
  assumes "seed < 0" and "\<not> 1000000 dvd seed"
  shows "\<exists>r. js_rem seed 1000000 = Num (of_int r) \<and> r \<le> - 1 \<and> - 1000000 < r"
proof -
  define m where "m = \<bar>seed\<bar> mod 1000000"
  have "m \<noteq> 0"
    using assms(2) by (simp add: m_def dvd_eq_mod_eq_0 [symmetric])
  moreover have "0 \<le> m" and "m < 1000000"
    by (simp_all add: m_def)
  ultimately have m: "1 \<le> m" "m < 1000000"
    by linarith+
  have "sgn seed * (\<bar>seed\<bar> mod 1000000) = - m"
    using assms(1) by (simp add: m_def)
  then have "js_rem seed 1000000 = Num (of_int (- m))"
    using m by (simp add: js_rem_def Let_def)
  with m show ?thesis
    by (intro exI [of _ "- m"]) simp
qed

lemma ratio_negative:
  assumes "r \<le> - 1" and "- 1000000 < r"
  shows "ddiv (Num (of_int r)) (Num 1000000) = NegInf
         \<or> (\<exists>y. ddiv (Num (of_int r)) (Num 1000000) = Num y \<and> y \<le> - (2 powi (- 20)))"
proof -
  have r0: "(of_int r :: rat) \<noteq> 0"
    using assms(1) by simp
  have unfold: "ddiv (Num (of_int r)) (Num 1000000) = roundToDouble (of_int r / 1000000)"
    using r0 by (simp add: ddiv_def isFinite_def valueOf_def)
  have "(of_int r :: rat) \<le> of_int (- 1)"
    using assms(1) by (simp only: of_int_le_iff)
  then have "(of_int r :: rat) / 1000000 \<le> - 1 / 1000000"
    by (simp add: divide_right_mono)
  moreover have "- 1 / 1000000 \<le> - ((2::rat) powi (- 20))"
    by simp
  ultimately have "(of_int r :: rat) / 1000000 \<le> - (2 powi (- 20))"
    by linarith
  then show ?thesis
    unfolding unfold by (intro roundToDouble_negative) simp_all
qed

lemma product_negative:
  assumes d: "d = NegInf \<or> (\<exists>y. d = Num y \<and> y \<le> - (2 powi (- 20)))"
    and t: "dle (Num underflowBound) t"
  shows "dlt (dmul d t) (Num 0)"
proof (cases t)
  case NaN
  with t show ?thesis by (simp add: dle_def)
next
  case PosInf
  with d show ?thesis
    by (auto simp: dmul_def dlt_def isFinite_def signedInf_def signbit_def valueOf_def)
next
  case NegInf
  with t show ?thesis by (simp add: dle_def)
next
  case NegZero
  with t underflowBound_pos show ?thesis by (simp add: dle_def valueOf_def)
next
  case (Num w)
  with t have w: "underflowBound \<le> w"
    by (simp add: dle_def valueOf_def)
  with underflowBound_pos have wpos: "0 < w" by linarith
  from d show ?thesis
  proof
    assume "d = NegInf"
    with Num wpos show ?thesis
      by (simp add: dmul_def dlt_def isFinite_def signedInf_def signbit_def valueOf_def)
  next
    assume "\<exists>y. d = Num y \<and> y \<le> - (2 powi (- 20))"
    then obtain y where y: "d = Num y" "y \<le> - (2 powi (- 20))"
      by blast
    have p20: "(0::rat) < 2 powi (- 20)" by simp
    have "y * w \<le> - (2 powi (- 20)) * w"
      using y(2) wpos by (simp only: mult_le_cancel_right_pos)
    also have "\<dots> \<le> - (2 powi (- 20)) * underflowBound"
      using w p20 by simp
    also have "\<dots> = - (2 powi (- 20 + - 1054))"
      unfolding underflowBound_def by (simp only: p2_add mult_minus_left)
    finally have small: "y * w \<le> - (2 powi (- 1074))"
      by simp
    have "(0::rat) < 2 powi (- 1074)" by simp
    with small have nz: "y * w \<noteq> 0" by linarith
    have "dmul d t = roundToDouble (y * w)"
      using y(1) Num nz by (simp add: dmul_def isFinite_def valueOf_def)
    moreover have "roundToDouble (y * w) = NegInf
        \<or> (\<exists>z. roundToDouble (y * w) = Num z \<and> z \<le> - (2 powi (- 1074)))"
      using small by (intro roundToDouble_negative) simp_all
    ultimately show ?thesis
      using \<open>(0::rat) < 2 powi (- 1074)\<close>
      by (auto simp: dlt_def valueOf_def)
  qed
qed

lemma first_cumulative_nonneg:
  assumes "effectiveWeight v \<noteq> NaN"
  shows "dle (Num 0) (dadd (Num 0) (effectiveWeight v))"
proof -
  define w where "w = (case weight v of None \<Rightarrow> Num 1 | Some u \<Rightarrow> u)"
  have ew: "effectiveWeight v = mathMax0 w"
    by (simp add: effectiveWeight_def w_def)
  show ?thesis
  proof (cases w)
    case NaN
    with assms ew show ?thesis by (simp add: mathMax0_def)
  next
    case PosInf
    with ew show ?thesis
      by (simp add: mathMax0_def dadd_def dle_def isFinite_def)
  next
    case NegInf
    with ew show ?thesis
      by (simp add: mathMax0_def dadd_def dle_def isFinite_def valueOf_def roundToDouble_def)
  next
    case NegZero
    with ew show ?thesis
      by (simp add: mathMax0_def dadd_def dle_def isFinite_def valueOf_def roundToDouble_def)
  next
    case (Num r)
    show ?thesis
    proof (cases "0 < r")
      case False
      with Num ew show ?thesis
        by (simp add: mathMax0_def dadd_def dle_def isFinite_def valueOf_def roundToDouble_def)
    next
      case True
      with Num ew have "dadd (Num 0) (effectiveWeight v) = roundToDouble r"
        by (simp add: mathMax0_def dadd_def isFinite_def valueOf_def)
      with roundToDouble_positive [OF True] show ?thesis
        by (auto simp: dle_def valueOf_def)
    qed
  qed
qed

lemma dlt_negative_nonneg:
  assumes "dlt p (Num 0)" and "dle (Num 0) c"
  shows "dlt p c"
  using assms by (cases p; cases c) (simp_all add: dlt_def dle_def valueOf_def)

lemma total_positive:
  assumes "dle (Num underflowBound) t"
  shows "\<not> dle t (Num 0)"
  using assms underflowBound_pos by (cases t) (simp_all add: dle_def valueOf_def)

text \<open>
  Claim C10, amended. For a non-empty list whose clamped total weight is at least
  \<open>2^-1054\<close> (infinity included) and a negative seed that is not a multiple of
  1,000,000, the remainder is negative, the ratio is at most \<open>-2^-20\<close>, the position is
  strictly negative, the first comparison of the loop succeeds, and \<open>selectVariant\<close>
  returns the first variant whatever the weights are (also when the first weight is 0).
\<close>

theorem selectVariant_negative_seed:
  assumes "vs \<noteq> []"
    and "dle (Num underflowBound) (foldl dadd (Num 0) (map effectiveWeight vs))"
    and "seed < 0" and "\<not> 1000000 dvd seed"
  shows "dlt (seedPosition seed (foldl dadd (Num 0) (map effectiveWeight vs))) (Num 0)
         \<and> selectVariant vs seed = Inr (hd vs)"
proof -
  let ?total = "foldl dadd (Num 0) (map effectiveWeight vs)"
  obtain v rest where vs: "vs = v # rest"
    using assms(1) by (cases vs) auto
  obtain r where r: "js_rem seed 1000000 = Num (of_int r)" "r \<le> - 1" "- 1000000 < r"
    using js_rem_negative [OF assms(3,4)] by blast
  have neg: "dlt (seedPosition seed ?total) (Num 0)"
    unfolding seedPosition_def r(1)
    using ratio_negative [OF r(2,3)] assms(2) by (rule product_negative)
  have "effectiveWeight v \<noteq> NaN"
  proof
    assume "effectiveWeight v = NaN"
    then have "?total = NaN"
      by (simp add: vs dadd_NaN foldl_dadd_NaN)
    with assms(2) show False
      by (simp add: dle_NaN)
  qed
  then have "dle (Num 0) (dadd (Num 0) (effectiveWeight v))"
    by (rule first_cumulative_nonneg)
  with neg have "dlt (seedPosition seed ?total) (dadd (Num 0) (effectiveWeight v))"
    by (rule dlt_negative_nonneg)
  then have "walk (seedPosition seed ?total) (Num 0) (zip vs (map effectiveWeight vs)) = Some v"
    by (simp add: vs)
  moreover have "\<not> dle ?total (Num 0)"
    using assms(2) by (rule total_positive)
  ultimately have "selectVariant vs seed = Inr v"
    by (simp add: selectVariant_def Let_def vs)
  with neg vs show ?thesis by simp
qed

text \<open>
  At seed \<open>-1\<close>, a pool of total weight 1 whose first variant has weight 0 still gives
  that first variant.
\<close>

lemma underflowBound_le_one: "underflowBound \<le> 1"
proof -
  have "(2::rat) powi (- 1054) \<le> 2 powi 0"
    by (rule p2_mono) simp
  then show ?thesis by (simp add: underflowBound_def)
qed

lemma zeroFirstPool_total: "foldl dadd (Num 0) (map effectiveWeight zeroFirstPool) = Num 1"
  by (simp add: zeroFirstPool_def plainVariant_def effectiveWeight_def double_eval)

theorem selectVariant_negative_seed_witness:
  "selectVariant zeroFirstPool (- 1) = Inr (plainVariant ''never'' (Some 0))"
proof -
  have "zeroFirstPool \<noteq> []"
    by (simp add: zeroFirstPool_def)
  moreover have "dle (Num underflowBound) (foldl dadd (Num 0) (map effectiveWeight zeroFirstPool))"
    using underflowBound_le_one by (simp add: zeroFirstPool_total dle_def valueOf_def)
  moreover have "(- 1 :: int) < 0" and "\<not> (1000000 :: int) dvd - 1"
    by simp_all
  ultimately have "selectVariant zeroFirstPool (- 1) = Inr (hd zeroFirstPool)"
    using selectVariant_negative_seed [of zeroFirstPool "- 1"] by blast
  then show ?thesis
    by (simp add: zeroFirstPool_def)
qed

text \<open>
  Claim C10 as stated, for every positive total weight, fails. With the weights 0 and
  \<open>Number.MIN_VALUE\<close> the total is positive; at seed \<open>-1\<close> the ratio is the double
  nearest to one millionth, negated, and its product with the total is below half of the
  smallest double, so it rounds to \<open>-0\<close>; \<open>-0 < 0\<close> is false, the first comparison
  fails, and the second variant is returned.
\<close>

lemma roundToDouble_minSubnormal: "roundToDouble minSubnormal = Num minSubnormal"
  unfolding minSubnormal_def by (rule roundToDouble_p2) simp_all

lemma tinyPool_weights:
  "map effectiveWeight tinyPool = [Num 0, Num minSubnormal]"
  using minSubnormal_pos
  by (simp add: tinyPool_def plainVariant_def effectiveWeight_def mathMax0_def)

lemma dadd_zero_minSubnormal: "dadd (Num 0) (Num minSubnormal) = Num minSubnormal"
  by (simp add: dadd_def isFinite_def valueOf_def roundToDouble_minSubnormal)

lemma dadd_zero_zero: "dadd (Num 0) (Num 0) = Num 0"
  by (simp add: dadd_def isFinite_def valueOf_def roundToDouble_def)

lemma tinyPool_total: "foldl dadd (Num 0) (map effectiveWeight tinyPool) = Num minSubnormal"
  by (simp add: tinyPool_weights dadd_zero_zero dadd_zero_minSubnormal)

lemma millionth: "ddiv (js_rem (- 1) 1000000) (Num 1000000)
    = Num (- (4722366482869645 / 4722366482869645213696))"
  by (simp add: double_eval)

lemma tinyPool_position: "seedPosition (- 1) (Num minSubnormal) = NegZero"
proof -
  define d :: rat where "d = - (4722366482869645 / 4722366482869645213696)"
  have d: "d \<noteq> 0" "d < 0" "\<bar>d\<bar> \<le> 1 / 2"
    by (simp_all add: d_def)
  have nz: "d * minSubnormal \<noteq> 0"
    using d(1) minSubnormal_pos by simp
  have "(2::rat) powi (- 1075) = 2 powi (- 1 + - 1074)" by simp
  also have "\<dots> = 2 powi (- 1) * 2 powi (- 1074)" by (rule p2_add)
  finally have half: "(2::rat) powi (- 1075) = (1 / 2) * minSubnormal"
    by (simp add: minSubnormal_def power_int_minus_divide)
  have "\<bar>d * minSubnormal\<bar> = \<bar>d\<bar> * minSubnormal"
    using minSubnormal_pos by (simp add: abs_mult)
  also have "\<dots> \<le> (1 / 2) * minSubnormal"
    using d(3) minSubnormal_pos by (simp only: mult_le_cancel_right_pos)
  finally have "\<bar>d * minSubnormal\<bar> \<le> 2 powi (- 1075)"
    by (simp only: half)
  with nz have "roundToDouble (d * minSubnormal) = (if d * minSubnormal < 0 then NegZero else Num 0)"
    by (rule roundToDouble_underflow)
  moreover have "d * minSubnormal < 0"
    using d(2) minSubnormal_pos by (simp add: mult_neg_pos)
  ultimately have "roundToDouble (d * minSubnormal) = NegZero"
    by simp
  moreover have "dmul (Num d) (Num minSubnormal) = roundToDouble (d * minSubnormal)"
    using nz by (simp add: dmul_def isFinite_def valueOf_def)
  ultimately show ?thesis
    by (simp add: seedPosition_def millionth d_def)
qed

theorem selectVariant_negative_seed_underflow:
  "tinyPool \<noteq> []
   \<and> dlt (Num 0) (foldl dadd (Num 0) (map effectiveWeight tinyPool))
   \<and> selectVariant tinyPool (- 1) = Inr (plainVariant ''always'' (Some minSubnormal))
   \<and> hd tinyPool = plainVariant ''never'' (Some 0)"
proof -
  have pos: "dlt (Num 0) (Num minSubnormal)" and total: "\<not> dle (Num minSubnormal) (Num 0)"
    using minSubnormal_pos by (simp_all add: dlt_def dle_def valueOf_def)
  have first: "\<not> dlt NegZero (Num 0)" and second: "dlt NegZero (Num minSubnormal)"
    using minSubnormal_pos by (simp_all add: dlt_def valueOf_def)
  have "walk NegZero (Num 0) (zip tinyPool [Num 0, Num minSubnormal])
      = Some (plainVariant ''always'' (Some minSubnormal))"
    using first second by (simp add: tinyPool_def dadd_zero_zero dadd_zero_minSubnormal)
  moreover have "length tinyPool \<noteq> 0"
    by (simp add: tinyPool_def)
  ultimately have "selectVariant tinyPool (- 1) = Inr (plainVariant ''always'' (Some minSubnormal))"
    using total
    by (simp add: selectVariant_def Let_def tinyPool_position tinyPool_weights
        dadd_zero_zero dadd_zero_minSubnormal)
  moreover have "tinyPool \<noteq> []" and "hd tinyPool = plainVariant ''never'' (Some 0)"
    by (simp_all add: tinyPool_def)
  ultimately show ?thesis
    using pos by (simp add: tinyPool_total)
qed

text \<open>
  On a non-empty list \<open>selectVariant\<close> is the selection of the specification: the
  first variant when the total weight is not positive, otherwise the first variant whose
  cumulative weight exceeds the position, or the last variant when there is none.
\<close>

lemma walk_find:
  "walk p c (zip vs ws) =
     map_option fst (List.find (\<lambda>(v, cu). dlt p cu) (zip vs (cumulativeWeights c ws)))"
proof (induction vs arbitrary: c ws)
  case Nil
  then show ?case by simp
next
  case (Cons v vs)
  show ?case
  proof (cases ws)
    case Nil
    then show ?thesis by simp
  next
    case (Cons w ws')
    with Cons.IH [of "dadd c w" ws'] show ?thesis
      by (simp add: Let_def)
  qed
qed

lemma selectVariant_walks:
  assumes "vs \<noteq> []"
  shows "selectVariant vs seed =
           (let totalWeight = foldl dadd (Num 0) (map effectiveWeight vs)
            in if dle totalWeight (Num 0) then Inr (hd vs)
               else (case firstExceeding (seedPosition seed totalWeight) vs of
                       Some v \<Rightarrow> Inr v
                     | None \<Rightarrow> Inr (last vs)))"
proof -
  have "vs ! 0 = hd vs" and "vs ! (length vs - 1) = last vs"
    using assms by (simp_all add: hd_conv_nth last_conv_nth)
  moreover have "length vs \<noteq> 0"
    using assms by simp
  ultimately show ?thesis
    unfolding selectVariant_def firstExceeding_def walk_find Let_def
    by (simp only: if_False)
qed

text \<open>
  For a seed that is not negative and a total weight that is not negative, the position
  is not negative.
\<close>

lemma ratio_nonneg:
  assumes "0 \<le> seed"
  shows "ddiv (js_rem seed 1000000) (Num 1000000) = PosInf
         \<or> (\<exists>y. ddiv (js_rem seed 1000000) (Num 1000000) = Num y \<and> 0 \<le> y)"
proof -
  define r where "r = seed mod 1000000"
  have r: "0 \<le> r" by (simp add: r_def)
  have "sgn seed * (\<bar>seed\<bar> mod 1000000) = r"
    using assms by (cases "seed = 0") (simp_all add: r_def)
  then have rem: "js_rem seed 1000000 = Num (of_int r)"
    using assms by (simp add: js_rem_def Let_def)
  show ?thesis
  proof (cases "r = 0")
    case True
    then show ?thesis
      by (simp add: rem ddiv_def isFinite_def valueOf_def signedZero_def signbit_def)
  next
    case False
    with r have "0 < (of_int r :: rat) / 1000000" by simp
    from roundToDouble_positive [OF this] False show ?thesis
      by (simp add: rem ddiv_def isFinite_def valueOf_def)
  qed
qed

lemma product_not_negative:
  assumes d: "d = PosInf \<or> (\<exists>y. d = Num y \<and> 0 \<le> y)"
    and t: "dle (Num 0) t"
  shows "\<not> dlt (dmul d t) (Num 0)"
proof (cases t)
  case NaN
  then show ?thesis by (simp add: dmul_def dlt_def)
next
  case PosInf
  with d show ?thesis
    by (auto simp: dmul_def dlt_def isFinite_def signedInf_def signbit_def valueOf_def)
next
  case NegInf
  with t show ?thesis by (simp add: dle_def)
next
  case NegZero
  with d show ?thesis
    by (auto simp: dmul_def dlt_def isFinite_def signedZero_def signbit_def valueOf_def)
next
  case (Num w)
  with t have w: "0 \<le> w" by (simp add: dle_def valueOf_def)
  from d show ?thesis
  proof
    assume "d = PosInf"
    with Num w show ?thesis
      by (auto simp: dmul_def dlt_def isFinite_def signedInf_def signbit_def valueOf_def)
  next
    assume "\<exists>y. d = Num y \<and> 0 \<le> y"
    then obtain y where y: "d = Num y" "0 \<le> y" by blast
    show ?thesis
    proof (cases "y * w = 0")
      case True
      with y Num show ?thesis
        by (auto simp: dmul_def dlt_def isFinite_def signedZero_def valueOf_def)
    next
      case False
      with y(2) w have "0 < y * w"
        by (simp add: zero_less_mult_iff less_le)
      from roundToDouble_positive [OF this] False y(1) Num show ?thesis
        by (auto simp: dmul_def dlt_def isFinite_def valueOf_def)
    qed
  qed
qed

lemma seedPosition_not_negative:
  assumes "0 \<le> seed" and "dle (Num 0) t"
  shows "\<not> dlt (seedPosition seed t) (Num 0)"
  unfolding seedPosition_def
  using ratio_nonneg [OF assms(1)] assms(2) by (rule product_not_negative)

text \<open>
  Claim C4 says that the position lies in \<open>[0, totalWeight)\<close> for every integer seed,
  as the comments of \<open>selectVariant\<close> do. At seed \<open>-250000\<close>, on a pool of total
  weight 1 whose first variant is disabled by weight 0, the position is \<open>-1/4\<close> and the
  disabled variant is returned.
\<close>

theorem selectVariant_negative_position:
  "foldl dadd (Num 0) (map effectiveWeight zeroFirstPool) = Num 1
   \<and> seedPosition (- 250000) (foldl dadd (Num 0) (map effectiveWeight zeroFirstPool)) = Num (- (1 / 4))
   \<and> \<not> dle (Num 0) (seedPosition (- 250000) (foldl dadd (Num 0) (map effectiveWeight zeroFirstPool)))
   \<and> selectVariant zeroFirstPool (- 250000) = Inr (plainVariant ''never'' (Some 0))"
  by (simp add: selectVariant_def seedPosition_def zeroFirstPool_def
      plainVariant_def effectiveWeight_def double_eval)

subsection \<open>The ratio test (claim C2)\<close>

lemma js_rem_small:
  assumes "0 \<le> seed" and "seed < 1000000"
  shows "js_rem seed 1000000 = Num (of_int seed)"
proof (cases "seed = 0")
  case True
  then show ?thesis by (simp add: js_rem_def)
next
  case False
  with assms have "sgn seed = 1" and "\<bar>seed\<bar> mod 1000000 = seed"
    by simp_all
  then show ?thesis by (simp add: js_rem_def)
qed

lemma ratioPool_weights: "map effectiveWeight ratioPool = [Num 9, Num 1]"
  by (simp add: ratioPool_def plainVariant_def effectiveWeight_def mathMax0_def)

lemma ratioPool_sums: "dadd (Num 0) (Num 9) = Num 9" "dadd (Num 9) (Num 1) = Num 10"
  by (simp_all add: double_eval)

text \<open>
  For a seed below 10,000 the ratio is at most \<open>2^-6\<close> and the position at most 1,
  roundings included.
\<close>

lemma ratioPool_position:
  assumes "0 \<le> seed" and "seed < 10000"
  shows "\<exists>z. seedPosition seed (Num 10) = Num z \<and> z \<le> 1"
proof (cases "seed = 0")
  case True
  then have "seedPosition seed (Num 10) = Num 0"
    by (simp add: seedPosition_def double_eval)
  then show ?thesis by simp
next
  case False
  with assms(1) have pos: "0 < (of_int seed :: rat) / 1000000"
    by simp
  have "(of_int seed :: rat) \<le> of_int 10000"
    using assms(2) by (simp only: of_int_le_iff)
  then have "(of_int seed :: rat) / 1000000 \<le> 10000 / 1000000"
    by (simp add: divide_right_mono)
  also have "\<dots> \<le> 2 powi (- 6)"
    by simp
  finally have "\<exists>y. roundToDouble (of_int seed / 1000000) = Num y \<and> 0 \<le> y \<and> y \<le> 2 powi (- 6)"
    using pos by (intro roundToDouble_bounded) simp_all
  then obtain y where y: "roundToDouble (of_int seed / 1000000) = Num y" "0 \<le> y" "y \<le> 2 powi (- 6)"
    by blast
  have rem: "js_rem seed 1000000 = Num (of_int seed)"
    using assms by (intro js_rem_small) simp_all
  have ratio: "ddiv (js_rem seed 1000000) (Num 1000000) = Num y"
    using False y(1) by (simp add: rem ddiv_def isFinite_def valueOf_def)
  show ?thesis
  proof (cases "y = 0")
    case True
    then have "seedPosition seed (Num 10) = Num 0"
      by (simp add: seedPosition_def ratio dmul_def isFinite_def valueOf_def signedZero_def
          signbit_def)
    then show ?thesis by simp
  next
    case False
    with y(2) have ypos: "0 < y * 10" by simp
    have "y * 10 \<le> 2 powi (- 6) * 10"
      using y(3) by simp
    also have "\<dots> \<le> 2 powi 0"
      by simp
    finally have "\<exists>z. roundToDouble (y * 10) = Num z \<and> 0 \<le> z \<and> z \<le> 2 powi 0"
      using ypos by (intro roundToDouble_bounded) simp_all
    then obtain z where z: "roundToDouble (y * 10) = Num z" "z \<le> 1"
      by auto
    have "seedPosition seed (Num 10) = roundToDouble (y * 10)"
      using False by (simp add: seedPosition_def ratio dmul_def isFinite_def valueOf_def)
    with z show ?thesis by simp
  qed
qed

lemma ratioPool_small_seed:
  assumes "0 \<le> seed" and "seed < 10000"
  shows "selectVariant ratioPool seed = Inr (plainVariant ''heavy'' (Some 9))"
proof -
  obtain z where z: "seedPosition seed (Num 10) = Num z" "z \<le> 1"
    using ratioPool_position [OF assms] by blast
  have "dlt (Num z) (Num 9)"
    using z(2) by (simp add: dlt_def valueOf_def)
  then have "walk (seedPosition seed (Num 10)) (Num 0) (zip ratioPool [Num 9, Num 1])
      = Some (plainVariant ''heavy'' (Some 9))"
    by (simp add: z(1) ratioPool_def ratioPool_sums)
  moreover have "\<not> dle (Num 10) (Num 0)"
    by (simp add: dle_def valueOf_def)
  moreover have "length ratioPool \<noteq> 0"
    by (simp add: ratioPool_def)
  ultimately show ?thesis
    by (simp add: selectVariant_def Let_def ratioPool_weights ratioPool_sums)
qed

lemma selectsHeavy_below_10000: "n < 10000 \<Longrightarrow> selectsHeavy n"
  using ratioPool_small_seed [of "int n"]
  by (simp add: selectsHeavy_def plainVariant_def)

text \<open>
  Claim C2 says that, for the pool of weights 9 and 1 and the seeds 0 to 9999, the share
  of seeds that select \<open>heavy\<close> is strictly between 0.85 and 0.95, as the test suite
  asserts. Every one of these seeds is its own remainder, so its position is about a
  hundred-thousandth of it, at most 1 and under the first cumulative weight 9: all
  10,000 seeds select \<open>heavy\<close> and the ratio is 1.
\<close>

theorem ratio_test_selects_heavy_only: "heavyCount = 10000 \<and> heavyRatio = 1 \<and> \<not> heavyRatio < 95 / 100"
proof -
  have "filter selectsHeavy [0..<10000] = [0..<10000]"
    by (rule filter_True) (simp add: selectsHeavy_below_10000)
  then have "heavyCount = 10000"
    by (simp add: heavyCount_def)
  then show ?thesis
    by (simp add: heavyRatio_def)
qed

subsection \<open>The composite key (claim C1)\<close>

lemma takeWhile_until: "c \<notin> set xs \<Longrightarrow> takeWhile (\<lambda>x. x \<noteq> c) (xs @ c # ys) = xs"
  by (induction xs) auto

lemma key_split_last_colon:
  fixes sk sk' ex ex' :: jsstring
  assumes "58 \<notin> set ex" and "58 \<notin> set ex'"
    and "sk @ [58] @ ex = sk' @ [58] @ ex'"
  shows "sk = sk' \<and> ex = ex'"
proof -
  have "rev ex @ 58 # rev sk = rev ex' @ 58 # rev sk'"
    using arg_cong [OF assms(3), of rev] by simp
  then have "takeWhile (\<lambda>c. c \<noteq> 58) (rev ex @ 58 # rev sk)
           = takeWhile (\<lambda>c. c \<noteq> 58) (rev ex' @ 58 # rev sk')"
    by simp
  moreover have "takeWhile (\<lambda>c. c \<noteq> 58) (rev ex @ 58 # rev sk) = rev ex"
    using assms(1) by (simp add: takeWhile_until)
  moreover have "takeWhile (\<lambda>c. c \<noteq> 58) (rev ex' @ 58 # rev sk') = rev ex'"
    using assms(2) by (simp add: takeWhile_until)
  ultimately have "ex = ex'"
    by simp
  with assms(3) show ?thesis by simp
qed

lemma key_split_first_colon:
  fixes sk sk' ex ex' :: jsstring
  assumes "58 \<notin> set sk" and "58 \<notin> set sk'"
    and "sk @ [58] @ ex = sk' @ [58] @ ex'"
  shows "sk = sk' \<and> ex = ex'"
proof -
  have "takeWhile (\<lambda>c. c \<noteq> 58) (sk @ [58] @ ex) = sk"
    using assms(1) by (simp add: takeWhile_until)
  moreover have "takeWhile (\<lambda>c. c \<noteq> 58) (sk' @ [58] @ ex') = sk'"
    using assms(2) by (simp add: takeWhile_until)
  ultimately have "sk = sk'"
    using assms(3) by simp
  with assms(3) show ?thesis by simp
qed

text \<open>
  Claim C1, amended. Two distinct pairs (session key, experiment id) have distinct
  composite keys provided neither experiment id contains a colon, or neither session key
  does.
\<close>

theorem compositeKey_distinct_without_colon:
  assumes "(sk, ex) \<noteq> (sk', ex')"
    and "(58 \<notin> set ex \<and> 58 \<notin> set ex') \<or> (58 \<notin> set sk \<and> 58 \<notin> set sk')"
  shows "compositeKey sk ex \<noteq> compositeKey sk' ex'"
proof
  assume "compositeKey sk ex = compositeKey sk' ex'"
  then have eq: "sk @ [58] @ ex = sk' @ [58] @ ex'"
    by (simp add: compositeKey_def)
  from assms(2) have "sk = sk' \<and> ex = ex'"
  proof
    assume "58 \<notin> set ex \<and> 58 \<notin> set ex'"
    with eq show ?thesis using key_split_last_colon [of ex ex' sk sk'] by blast
  next
    assume "58 \<notin> set sk \<and> 58 \<notin> set sk'"
    with eq show ?thesis using key_split_first_colon [of sk sk' ex ex'] by blast
  qed
  with assms(1) show False by simp
qed

text \<open>
  Two sessions of one experiment get two keys.
\<close>

theorem compositeKey_distinct_without_colon_witness:
  "compositeKey (js ''sess-1'') (js ''exp-tone'') \<noteq> compositeKey (js ''sess-2'') (js ''exp-tone'')"
proof -
  have "(js ''sess-1'', js ''exp-tone'') \<noteq> (js ''sess-2'', js ''exp-tone'')"
    by (simp add: js_def)
  moreover have "58 \<notin> set (js ''exp-tone'')"
    by (simp add: js_def)
  ultimately show ?thesis
    using compositeKey_distinct_without_colon
      [of "js ''sess-1''" "js ''exp-tone''" "js ''sess-2''" "js ''exp-tone''"]
    by blast
qed

text \<open>
  Claim C1 as stated, for every two distinct pairs, fails: the pairs
  \<open>("a:b", "c")\<close> and \<open>("a", "b:c")\<close> are distinct and both have the key
  \<open>"a:b:c"\<close>.
\<close>

theorem compositeKey_collision:
  "(js ''a:b'', js ''c'') \<noteq> (js ''a'', js ''b:c'')
   \<and> compositeKey (js ''a:b'') (js ''c'') = compositeKey (js ''a'') (js ''b:c'')"
  by (simp add: compositeKey_def js_def)

subsection \<open>The assignment cache (claim C3)\<close>

lemma cacheSound_initial: "cacheSound exps initial_state"
  by (simp add: cacheSound_def initial_state_def)

lemma getVariantForSession_sound:
  assumes "cacheSound exps st" and "ex \<in> set exps"
  shows "cacheSound exps (snd (getVariantForSession st sk ex))"
proof (cases "assignmentCache st (compositeKey sk (experiment_id ex))")
  case (Some cached)
  with assms(1) show ?thesis
    by (simp add: getVariantForSession_def)
next
  case None
  show ?thesis
  proof (cases "assignVariant sk (experiment_id ex) (variants ex)")
    case (Inl err)
    with None assms(1) show ?thesis
      by (simp add: getVariantForSession_def)
  next
    case (Inr variant)
    have "snd (getVariantForSession st sk ex) =
        st\<lparr>assignmentCache := (assignmentCache st)(compositeKey sk (experiment_id ex) \<mapsto> variant),
           logger := logger (snd (getVariantForSession st sk ex))\<rparr>"
      using None Inr by (simp add: getVariantForSession_def)
    then have cache: "assignmentCache (snd (getVariantForSession st sk ex))
        = (assignmentCache st)(compositeKey sk (experiment_id ex) \<mapsto> variant)"
      by (metis plugin_state.select_convs(1) plugin_state.surjective plugin_state.update_convs(1,2))
    show ?thesis
      unfolding cacheSound_def
    proof (intro allI impI)
      fix key v
      assume hit: "assignmentCache (snd (getVariantForSession st sk ex)) key = Some v"
      show "\<exists>sk' ex'. ex' \<in> set exps \<and> key = compositeKey sk' (experiment_id ex')
              \<and> assignVariant sk' (experiment_id ex') (variants ex') = Inr v"
      proof (cases "key = compositeKey sk (experiment_id ex)")
        case True
        with hit cache have "v = variant" by simp
        with True Inr assms(2) show ?thesis by blast
      next
        case False
        with hit cache have "assignmentCache st key = Some v" by simp
        with assms(1) show ?thesis
          unfolding cacheSound_def by blast
      qed
    qed
  qed
qed

lemma composeLoop_sound:
  assumes "cacheSound exps st" and "set es \<subseteq> set exps"
  shows "cacheSound exps (snd (composeLoop sk agentId es r parts st))"
  using assms
proof (induction es arbitrary: r parts st)
  case Nil
  then show ?case by simp
next
  case (Cons ex es)
  show ?case
  proof (cases "skippedFor agentId ex")
    case True
    with Cons show ?thesis by simp
  next
    case False
    obtain res st1 where g: "getVariantForSession st sk ex = (res, st1)"
      by (cases "getVariantForSession st sk ex")
    have sound1: "cacheSound exps st1"
      using getVariantForSession_sound [of exps st ex sk] Cons.prems g by simp
    show ?thesis
    proof (cases res)
      case (Inl err)
      with False g sound1 show ?thesis by simp
    next
      case (Inr v)
      have "cacheSound exps
          (snd (composeLoop sk agentId es (overwritePrompt v r) (pushContext v parts) st1))"
        using Cons.IH [OF sound1] Cons.prems(2) by simp
      with False g Inr show ?thesis by simp
    qed
  qed
qed

lemma before_prompt_build_sound:
  assumes "cacheSound exps st"
  shows "cacheSound exps (snd (before_prompt_build exps ctx st))"
proof -
  have "snd (before_prompt_build exps ctx st)
      = snd (composeLoop (promptSessionKey ctx) (ctx_agentId ctx) exps None [] st)"
    by (simp add: before_prompt_build_def split: prod.splits sum.splits)
  with composeLoop_sound [OF assms, of exps] show ?thesis by simp
qed

lemma run_prompt_builds_sound:
  assumes "cacheSound exps st"
  shows "cacheSound exps (run_prompt_builds exps ctxs st)"
  using assms
proof (induction ctxs arbitrary: st)
  case Nil
  then show ?case by simp
next
  case (Cons ctx ctxs)
  then show ?case
    by (simp add: before_prompt_build_sound)
qed

lemma sound_lookup_recomputes:
  assumes sound: "cacheSound exps st"
    and ids: "distinct (map experiment_id exps)"
    and colon: "\<forall>ex\<in>set exps. 58 \<notin> set (experiment_id ex)"
    and active: "ex \<in> set exps"
  shows "fst (getVariantForSession st sk ex) = assignVariant sk (experiment_id ex) (variants ex)"
proof (cases "assignmentCache st (compositeKey sk (experiment_id ex))")
  case None
  then show ?thesis
    by (simp add: getVariantForSession_def split: sum.splits)
next
  case (Some cached)
  with sound obtain sk' ex' where ex': "ex' \<in> set exps"
    and key: "compositeKey sk (experiment_id ex) = compositeKey sk' (experiment_id ex')"
    and recomputed: "assignVariant sk' (experiment_id ex') (variants ex') = Inr cached"
    unfolding cacheSound_def by blast
  have "58 \<notin> set (experiment_id ex)" and "58 \<notin> set (experiment_id ex')"
    using colon active ex' by simp_all
  with key have same: "sk = sk' \<and> experiment_id ex = experiment_id ex'"
    using key_split_last_colon [of "experiment_id ex" "experiment_id ex'" sk sk']
    by (simp add: compositeKey_def)
  have "inj_on experiment_id (set exps)"
    using ids by (simp add: distinct_map)
  with same active ex' have "ex = ex'"
    by (simp add: inj_on_def)
  with same recomputed have "assignVariant sk (experiment_id ex) (variants ex) = Inr cached"
    by simp
  with Some show ?thesis
    by (simp add: getVariantForSession_def)
qed

text \<open>
  Claim C3, amended. When the ids of the active experiments are pairwise distinct and
  contain no colon, then in every cache state reached from the empty cache by a sequence
  of prompt-build invocations, for every active experiment and every session key, the
  memoized lookup returns exactly what \<open>assignVariant\<close> computes (the thrown error
  included).
\<close>

theorem cached_lookup_recomputes:
  assumes "distinct (map experiment_id exps)"
    and "\<forall>ex\<in>set exps. 58 \<notin> set (experiment_id ex)"
    and "ex \<in> set exps"
  shows "fst (getVariantForSession (run_prompt_builds exps ctxs initial_state) sk ex)
         = assignVariant sk (experiment_id ex) (variants ex)"
proof -
  have "cacheSound exps (run_prompt_builds exps ctxs initial_state)"
    using cacheSound_initial by (rule run_prompt_builds_sound)
  then show ?thesis
    using assms by (rule sound_lookup_recomputes)
qed

text \<open>
  After two requests on four experiments with distinct colon-free ids, the lookup for
  the first experiment is the recomputation.
\<close>

theorem cached_lookup_recomputes_witness:
  "fst (getVariantForSession
          (run_prompt_builds mergeExperiments
             [agentContext ''multi-exp-sess'' ''agent-1'', sessionContext ''other''] initial_state)
          (js ''multi-exp-sess'') (hd mergeExperiments))
   = assignVariant (js ''multi-exp-sess'') (experiment_id (hd mergeExperiments))
       (variants (hd mergeExperiments))"
proof -
  have "distinct (map experiment_id mergeExperiments)"
    by (simp add: mergeExperiments_def experimentOf_def js_def)
  moreover have "\<forall>ex\<in>set mergeExperiments. 58 \<notin> set (experiment_id ex)"
    by (simp add: mergeExperiments_def experimentOf_def js_def)
  moreover have "hd mergeExperiments \<in> set mergeExperiments"
    by (simp add: mergeExperiments_def)
  ultimately show ?thesis
    by (rule cached_lookup_recomputes)
qed

text \<open>
  Claim C3 as stated, for every active experiment list, fails. With the active
  experiments \<open>"c"\<close> and \<open>"b:c"\<close>, one request of session \<open>"a:b"\<close> stores the variant
  of experiment \<open>"c"\<close> under \<open>"a:b:c"\<close>; the lookup of session \<open>"a"\<close> for experiment
  \<open>"b:c"\<close> then finds that entry and returns a variant of the other experiment, where
  the recomputation returns the experiment's own variant.
\<close>

theorem cached_lookup_collision:
  "fst (getVariantForSession
          (run_prompt_builds collidingExperiments [sessionContext ''a:b''] initial_state)
          (js ''a'') (experimentOf ''b:c'' [plainVariant ''of-b:c'' None] None))
     = Inr (plainVariant ''of-c'' None)
   \<and> assignVariant (js ''a'') (js ''b:c'') [plainVariant ''of-b:c'' None]
     = Inr (plainVariant ''of-b:c'' None)
   \<and> experimentOf ''b:c'' [plainVariant ''of-b:c'' None] None \<in> set collidingExperiments"
  by (simp add: collidingExperiments_def experimentOf_def sessionContext_def
      before_prompt_build_def promptSessionKey_def skippedFor_def
      getVariantForSession_def initial_state_def assignVariant_def selectVariant_def
      seedPosition_def effectiveWeight_def double_eval hashString_def hash_step_def
      compositeKey_def overwritePrompt_def pushContext_def trimmedContext_def truthy_def
      plainVariant_def js_def)

subsection \<open>The before_prompt_build handler (claim C7)\<close>

lemma truthy_Some: "truthy p \<Longrightarrow> \<exists>s. p = Some s \<and> s \<noteq> []"
  by (cases p) (simp_all add: truthy_def)

lemma lastSystemPrompt_None_iff:
  "lastSystemPrompt vs = None \<longleftrightarrow> filter (\<lambda>v. truthy (systemPrompt v)) vs = []"
proof (cases "filter (\<lambda>v. truthy (systemPrompt v)) vs = []")
  case True
  then show ?thesis by (simp add: lastSystemPrompt_def)
next
  case False
  then have "last (filter (\<lambda>v. truthy (systemPrompt v)) vs)
      \<in> set (filter (\<lambda>v. truthy (systemPrompt v)) vs)"
    by (rule last_in_set)
  then have "truthy (systemPrompt (last (filter (\<lambda>v. truthy (systemPrompt v)) vs)))"
    by simp
  then have "systemPrompt (last (filter (\<lambda>v. truthy (systemPrompt v)) vs)) \<noteq> None"
    using truthy_Some by fastforce
  with False show ?thesis
    by (simp add: lastSystemPrompt_def Let_def)
qed

lemma lastSystemPrompt_Cons:
  "lastSystemPrompt (v # vs) =
     (case lastSystemPrompt vs of
        None \<Rightarrow> overwritePrompt v None
      | Some s \<Rightarrow> Some s)"
proof (cases "filter (\<lambda>v. truthy (systemPrompt v)) vs = []")
  case True
  then have "lastSystemPrompt vs = None"
    by (simp add: lastSystemPrompt_None_iff)
  with True show ?thesis
    by (simp add: lastSystemPrompt_def overwritePrompt_def)
next
  case False
  then obtain s where s: "lastSystemPrompt vs = Some s"
    using lastSystemPrompt_None_iff [of vs] by (cases "lastSystemPrompt vs") simp_all
  from False have "lastSystemPrompt (v # vs) = lastSystemPrompt vs"
    by (simp add: lastSystemPrompt_def Let_def)
  with s show ?thesis by simp
qed

lemma overwritePrompt_then_last:
  "(case lastSystemPrompt vs of None \<Rightarrow> overwritePrompt v r | Some s \<Rightarrow> Some s)
   = (case lastSystemPrompt (v # vs) of None \<Rightarrow> r | Some s \<Rightarrow> Some s)"
proof (cases "lastSystemPrompt vs")
  case None
  show ?thesis
  proof (cases "truthy (systemPrompt v)")
    case True
    then obtain s where "systemPrompt v = Some s"
      using truthy_Some by blast
    with None True show ?thesis
      by (simp add: lastSystemPrompt_Cons overwritePrompt_def)
  next
    case False
    with None show ?thesis
      by (simp add: lastSystemPrompt_Cons overwritePrompt_def)
  qed
next
  case (Some s)
  then show ?thesis
    by (simp add: lastSystemPrompt_Cons)
qed

lemma trimmedContexts_Cons: "trimmedContexts (v # vs) = pushContext v [] @ trimmedContexts vs"
  by (simp add: trimmedContexts_def pushContext_def List.map_filter_simps split: option.splits)

lemma pushContext_append: "pushContext v parts = parts @ pushContext v []"
  by (simp add: pushContext_def split: option.splits)

lemma composeLoop_assigned:
  "composeLoop sk agentId exps r parts st =
     (case assignedVariants st sk (qualifying agentId exps) of
        (Inl err, st') \<Rightarrow> (Inl err, st')
      | (Inr vs, st') \<Rightarrow>
          (Inr (case lastSystemPrompt vs of None \<Rightarrow> r | Some s \<Rightarrow> Some s,
                parts @ trimmedContexts vs), st'))"
proof (induction exps arbitrary: r parts st)
  case Nil
  show ?case
    by (simp add: qualifying_def lastSystemPrompt_def trimmedContexts_def List.map_filter_simps)
next
  case (Cons ex exps)
  show ?case
  proof (cases "skippedFor agentId ex")
    case True
    then have "qualifying agentId (ex # exps) = qualifying agentId exps"
      by (simp add: qualifying_def)
    with True Cons.IH [of r parts st] show ?thesis by simp
  next
    case False
    then have q: "qualifying agentId (ex # exps) = ex # qualifying agentId exps"
      by (simp add: qualifying_def)
    obtain res st1 where g: "getVariantForSession st sk ex = (res, st1)"
      by (cases "getVariantForSession st sk ex")
    show ?thesis
    proof (cases res)
      case (Inl err)
      with False g q show ?thesis by simp
    next
      case (Inr v)
      obtain res2 st2 where a: "assignedVariants st1 sk (qualifying agentId exps) = (res2, st2)"
        by (cases "assignedVariants st1 sk (qualifying agentId exps)")
      have step: "composeLoop sk agentId (ex # exps) r parts st
          = composeLoop sk agentId exps (overwritePrompt v r) (pushContext v parts) st1"
        using False g Inr by simp
      show ?thesis
      proof (cases res2)
        case err: (Inl err)
        with step a g Inr q Cons.IH [of "overwritePrompt v r" "pushContext v parts" st1]
        show ?thesis by simp
      next
        case vs: (Inr vs)
        have "composeLoop sk agentId (ex # exps) r parts st
            = (Inr (case lastSystemPrompt vs of None \<Rightarrow> overwritePrompt v r | Some s \<Rightarrow> Some s,
                    pushContext v parts @ trimmedContexts vs), st2)"
          using step a vs Cons.IH [of "overwritePrompt v r" "pushContext v parts" st1] by simp
        moreover have "pushContext v parts @ trimmedContexts vs = parts @ trimmedContexts (v # vs)"
          using pushContext_append [of v parts] by (simp add: trimmedContexts_Cons)
        moreover have "assignedVariants st sk (qualifying agentId (ex # exps)) = (Inr (v # vs), st2)"
          using q g Inr a vs by simp
        ultimately show ?thesis
          by (simp add: overwritePrompt_then_last)
      qed
    qed
  qed
qed

lemma before_prompt_build_composed:
  "before_prompt_build exps ctx st =
     (case assignedVariants st (promptSessionKey ctx) (qualifying (ctx_agentId ctx) exps) of
        (Inl err, st') \<Rightarrow> (Inl err, st')
      | (Inr vs, st') \<Rightarrow> (Inr (composedOverlay vs), st'))"
proof -
  obtain res st' where a:
      "assignedVariants st (promptSessionKey ctx) (qualifying (ctx_agentId ctx) exps) = (res, st')"
    by (cases "assignedVariants st (promptSessionKey ctx) (qualifying (ctx_agentId ctx) exps)")
  show ?thesis
  proof (cases res)
    case (Inl err)
    with a show ?thesis
      by (simp add: before_prompt_build_def composeLoop_assigned)
  next
    case (Inr vs)
    with a show ?thesis
      by (simp add: before_prompt_build_def composeLoop_assigned composedOverlay_def
          split: option.splits)
  qed
qed

lemma getVariantForSession_returns:
  assumes "variants ex \<noteq> []"
  shows "\<exists>v st'. getVariantForSession st sk ex = (Inr v, st')"
proof (cases "assignmentCache st (compositeKey sk (experiment_id ex))")
  case (Some cached)
  then show ?thesis
    by (simp add: getVariantForSession_def)
next
  case None
  obtain v where "assignVariant sk (experiment_id ex) (variants ex) = Inr v"
    using selectVariant_member [OF assms] unfolding assignVariant_def by blast
  with None show ?thesis
    by (simp add: getVariantForSession_def)
qed

lemma assignedVariants_returns:
  assumes "\<forall>ex\<in>set exps. variants ex \<noteq> []"
  shows "\<exists>vs st'. assignedVariants st sk exps = (Inr vs, st')"
  using assms
proof (induction exps arbitrary: st)
  case Nil
  then show ?case by simp
next
  case (Cons ex exps)
  then obtain v st1 where g: "getVariantForSession st sk ex = (Inr v, st1)"
    using getVariantForSession_returns [of ex st sk] by auto
  from Cons obtain vs st2 where "assignedVariants st1 sk exps = (Inr vs, st2)"
    by fastforce
  with g show ?case by simp
qed

lemma trimmedContexts_empty_iff:
  "trimmedContexts vs = [] \<longleftrightarrow> (\<forall>v\<in>set vs. \<not> truthy (trimmedContext v))"
proof (induction vs)
  case Nil
  then show ?case by (simp add: trimmedContexts_def List.map_filter_simps)
next
  case (Cons v vs)
  have "pushContext v [] = [] \<longleftrightarrow> \<not> truthy (trimmedContext v)"
    by (cases "trimmedContext v") (simp_all add: pushContext_def truthy_def)
  with Cons show ?case
    by (simp add: trimmedContexts_Cons)
qed

lemma composedOverlay_None_iff:
  "composedOverlay vs = None \<longleftrightarrow>
     (\<forall>v\<in>set vs. \<not> truthy (systemPrompt v) \<and> \<not> truthy (trimmedContext v))"
proof -
  have "lastSystemPrompt vs = None \<longleftrightarrow> (\<forall>v\<in>set vs. \<not> truthy (systemPrompt v))"
    by (simp add: lastSystemPrompt_None_iff filter_empty_conv)
  then have "composedOverlay vs = None \<longleftrightarrow>
      (\<forall>v\<in>set vs. \<not> truthy (systemPrompt v)) \<and> (\<forall>v\<in>set vs. \<not> truthy (trimmedContext v))"
    by (simp add: composedOverlay_def trimmedContexts_empty_iff)
  then show ?thesis by blast
qed

text \<open>
  Claim C7. For every request and every active experiment list (each experiment has a
  variant), the handler returns, with \<open>vs\<close> the variants assigned in order to the
  qualifying experiments: as \<open>systemPrompt\<close> the one of the last variant with a non-empty
  \<open>systemPrompt\<close>; as \<open>prependContext\<close> the non-empty trimmed contexts in order,
  joined by a blank line; each field only when there is such a value; and \<open>undefined\<close>
  exactly when no assigned variant has a non-empty \<open>systemPrompt\<close> or a non-empty
  trimmed \<open>prependContext\<close>.
\<close>

theorem before_prompt_build_overlay:
  assumes "\<forall>ex\<in>set exps. variants ex \<noteq> []"
  shows "\<exists>vs st'.
           assignedVariants st (promptSessionKey ctx) (qualifying (ctx_agentId ctx) exps) = (Inr vs, st')
           \<and> before_prompt_build exps ctx st = (Inr (composedOverlay vs), st')
           \<and> (composedOverlay vs = None \<longleftrightarrow>
                (\<forall>v\<in>set vs. \<not> truthy (systemPrompt v) \<and> \<not> truthy (trimmedContext v)))"
proof -
  have "\<forall>ex\<in>set (qualifying (ctx_agentId ctx) exps). variants ex \<noteq> []"
    using assms by (simp add: qualifying_def)
  then obtain vs st' where a:
      "assignedVariants st (promptSessionKey ctx) (qualifying (ctx_agentId ctx) exps) = (Inr vs, st')"
    using assignedVariants_returns by blast
  then have b: "before_prompt_build exps ctx st = (Inr (composedOverlay vs), st')"
    by (simp add: before_prompt_build_composed)
  show ?thesis
  proof (intro exI conjI)
    show "assignedVariants st (promptSessionKey ctx) (qualifying (ctx_agentId ctx) exps) = (Inr vs, st')"
      by (rule a)
    show "before_prompt_build exps ctx st = (Inr (composedOverlay vs), st')"
      by (rule b)
    show "composedOverlay vs = None \<longleftrightarrow>
        (\<forall>v\<in>set vs. \<not> truthy (systemPrompt v) \<and> \<not> truthy (trimmedContext v))"
      by (rule composedOverlay_None_iff)
  qed
qed

text \<open>
  Four experiments, one of them restricted to another agent: the system prompt of the
  second, and the trimmed contexts of the first and the fourth.
\<close>

lemma mergeExperiments_assigned:
  "fst (assignedVariants initial_state (js ''multi-exp-sess'')
          (qualifying (Some (js ''agent-1'')) mergeExperiments))
   = Inr [contextVariant ''formal'' (Some 1) ''  Use formal language. '',
          promptVariant ''variant-b'' (Some 1) ''You are a coder.'',
          contextVariant ''brief'' (Some 1) ''Keep replies short.'']"
  by (simp add: mergeExperiments_def experimentOf_def qualifying_def skippedFor_def
      getVariantForSession_def initial_state_def assignVariant_def selectVariant_def
      seedPosition_def effectiveWeight_def double_eval hashString_def hash_step_def
      compositeKey_def contextVariant_def promptVariant_def plainVariant_def js_def)

lemma mergeExperiments_composed:
  "composedOverlay
     [contextVariant ''formal'' (Some 1) ''  Use formal language. '',
      promptVariant ''variant-b'' (Some 1) ''You are a coder.'',
      contextVariant ''brief'' (Some 1) ''Keep replies short.'']
   = Some \<lparr>out_systemPrompt = Some (js ''You are a coder.''),
           out_prependContext =
             Some (js ''Use formal language.'' @ [10, 10] @ js ''Keep replies short.'')\<rparr>"
  by (simp add: composedOverlay_def lastSystemPrompt_def trimmedContexts_def trimmedContext_def
      List.map_filter_simps truthy_def trim_def isWhiteSpace_def contextVariant_def
      promptVariant_def js_def)

theorem before_prompt_build_overlay_witness:
  "fst (before_prompt_build mergeExperiments (agentContext ''multi-exp-sess'' ''agent-1'') initial_state)
   = Inr (Some \<lparr>out_systemPrompt = Some (js ''You are a coder.''),
                out_prependContext =
                  Some (js ''Use formal language.'' @ [10, 10] @ js ''Keep replies short.'')\<rparr>)"
proof -
  have "\<forall>ex\<in>set mergeExperiments. variants ex \<noteq> []"
    by (simp add: mergeExperiments_def experimentOf_def)
  from before_prompt_build_overlay [OF this, of initial_state "agentContext ''multi-exp-sess'' ''agent-1''"]
  obtain vs st' where
    a: "assignedVariants initial_state (promptSessionKey (agentContext ''multi-exp-sess'' ''agent-1''))
          (qualifying (ctx_agentId (agentContext ''multi-exp-sess'' ''agent-1'')) mergeExperiments)
        = (Inr vs, st')"
    and b: "before_prompt_build mergeExperiments (agentContext ''multi-exp-sess'' ''agent-1'') initial_state
        = (Inr (composedOverlay vs), st')"
    by blast
  have "promptSessionKey (agentContext ''multi-exp-sess'' ''agent-1'') = js ''multi-exp-sess''"
    and "ctx_agentId (agentContext ''multi-exp-sess'' ''agent-1'') = Some (js ''agent-1'')"
    by (simp_all add: promptSessionKey_def agentContext_def)
  with a mergeExperiments_assigned
  have "vs = [contextVariant ''formal'' (Some 1) ''  Use formal language. '',
              promptVariant ''variant-b'' (Some 1) ''You are a coder.'',
              contextVariant ''brief'' (Some 1) ''Keep replies short.'']"
    by simp
  with b mergeExperiments_composed show ?thesis
    by simp
qed

subsection \<open>Registration (claim C8)\<close>

lemma validateEntry_typed:
  assumes "fst (validateEntry entry)"
  shows "\<exists>ex i vs. entry = Some ex \<and> raw_id ex = Some i \<and> trim i \<noteq> []
           \<and> raw_variants ex = Some vs \<and> vs \<noteq> []"
proof (cases entry)
  case None
  with assms show ?thesis by (simp add: validateEntry_def)
next
  case (Some ex)
  show ?thesis
  proof (cases "raw_id ex")
    case None
    with assms Some show ?thesis by (simp add: validateEntry_def)
  next
    case i: (Some i)
    show ?thesis
    proof (cases "raw_variants ex")
      case None
      with assms Some i show ?thesis
        by (simp add: validateEntry_def split: if_splits)
    next
      case vs: (Some vs)
      with assms Some i show ?thesis
        by (simp add: validateEntry_def split: if_splits)
    qed
  qed
qed

lemma validateEntry_accepts:
  assumes "entry = Some ex" and "raw_id ex = Some i" and "trim i \<noteq> []"
    and "raw_variants ex = Some vs" and "vs \<noteq> []"
  shows "fst (validateEntry entry)"
  using assms by (simp add: validateEntry_def)

lemma asExperiment_typed:
  assumes "entry = Some ex" and "raw_id ex = Some i" and "raw_variants ex = Some vs"
  shows "asExperiment entry =
           Some \<lparr>experiment_id = i, description = raw_description ex,
                 enabled = raw_enabled ex, variants = vs, agentIds = raw_agentIds ex\<rparr>"
  using assms by (simp add: asExperiment_def)

text \<open>
  Every experiment of the active list has a variant, an id that is not blank, and is
  not disabled.
\<close>

lemma activeExperiments_have_variants:
  assumes "ex \<in> set (activeExperiments cfg)"
  shows "variants ex \<noteq> [] \<and> trim (experiment_id ex) \<noteq> [] \<and> enabled ex \<noteq> Some False"
proof -
  from assms have en: "enabled ex \<noteq> Some False"
    and "ex \<in> set (List.map_filter asExperiment (filter (\<lambda>e. fst (validateEntry e)) (configured cfg)))"
    by (simp_all add: activeExperiments_def validExperiments_def)
  then obtain entry where valid: "fst (validateEntry entry)" and typed: "asExperiment entry = Some ex"
    by (auto simp: List.map_filter_def)
  from validateEntry_typed [OF valid] obtain raw i vs where
    raw: "entry = Some raw" "raw_id raw = Some i" "trim i \<noteq> []"
      "raw_variants raw = Some vs" "vs \<noteq> []"
    by blast
  from asExperiment_typed [OF raw(1,2,4)] typed have "experiment_id ex = i" and "variants ex = vs"
    by auto
  with raw en show ?thesis by simp
qed

lemma keptEntry_iff:
  "keptEntry entry \<longleftrightarrow>
     fst (validateEntry entry) \<and> (\<exists>ex. asExperiment entry = Some ex \<and> enabled ex \<noteq> Some False)"
proof
  assume kept: "keptEntry entry"
  then obtain ex where entry: "entry = Some ex"
    by (cases entry) (simp_all add: keptEntry_def)
  from kept entry obtain i where i: "raw_id ex = Some i" "trim i \<noteq> []"
    by (cases "raw_id ex") (simp_all add: keptEntry_def)
  from kept entry obtain vs where vs: "raw_variants ex = Some vs" "vs \<noteq> []"
    by (cases "raw_variants ex") (simp_all add: keptEntry_def)
  from kept entry have en: "raw_enabled ex \<noteq> Some False"
    by (simp add: keptEntry_def)
  have "fst (validateEntry entry)"
    using entry i vs by (rule validateEntry_accepts)
  moreover have "\<exists>ex'. asExperiment entry = Some ex' \<and> enabled ex' \<noteq> Some False"
    using asExperiment_typed [OF entry i(1) vs(1)] en by simp
  ultimately show "fst (validateEntry entry)
      \<and> (\<exists>ex. asExperiment entry = Some ex \<and> enabled ex \<noteq> Some False)"
    by simp
next
  assume valid: "fst (validateEntry entry)
      \<and> (\<exists>ex. asExperiment entry = Some ex \<and> enabled ex \<noteq> Some False)"
  then obtain ex i vs where typed: "entry = Some ex" "raw_id ex = Some i" "trim i \<noteq> []"
      "raw_variants ex = Some vs" "vs \<noteq> []"
    using validateEntry_typed by blast
  from valid asExperiment_typed [OF typed(1,2,4)] have "raw_enabled ex \<noteq> Some False"
    by auto
  with typed show "keptEntry entry"
    by (simp add: keptEntry_def)
qed

lemma active_filter_step:
  "filter (\<lambda>ex. enabled ex \<noteq> Some False)
     (List.map_filter asExperiment (filter (\<lambda>e. fst (validateEntry e)) entries))
   = List.map_filter asExperiment (filter keptEntry entries)"
proof (induction entries)
  case Nil
  then show ?case by (simp add: List.map_filter_simps)
next
  case (Cons entry entries)
  show ?case
  proof (cases "fst (validateEntry entry)")
    case False
    then have "\<not> keptEntry entry"
      by (simp add: keptEntry_iff)
    with False Cons.IH show ?thesis by simp
  next
    case True
    then obtain ex i vs where typed: "entry = Some ex" "raw_id ex = Some i"
        "raw_variants ex = Some vs"
      using validateEntry_typed by blast
    from asExperiment_typed [OF typed] obtain ex' where ex': "asExperiment entry = Some ex'"
      by blast
    show ?thesis
    proof (cases "enabled ex' \<noteq> Some False")
      case en: True
      with True ex' have "keptEntry entry"
        by (simp add: keptEntry_iff)
      with True ex' en Cons.IH show ?thesis
        by (simp add: List.map_filter_simps)
    next
      case en: False
      with ex' have "\<not> keptEntry entry"
        by (simp add: keptEntry_iff)
      with True ex' en Cons.IH show ?thesis
        by (simp add: List.map_filter_simps)
    qed
  qed
qed

lemma kept_all_typed:
  "length (List.map_filter asExperiment (filter keptEntry entries)) = length (filter keptEntry entries)"
proof (induction entries)
  case Nil
  then show ?case by (simp add: List.map_filter_simps)
next
  case (Cons entry entries)
  show ?case
  proof (cases "keptEntry entry")
    case True
    then obtain ex where "asExperiment entry = Some ex"
      using keptEntry_iff by blast
    with True Cons.IH show ?thesis
      by (simp add: List.map_filter_simps)
  next
    case False
    with Cons.IH show ?thesis by simp
  qed
qed

lemma activeExperiments_kept:
  "activeExperiments cfg = List.map_filter asExperiment (filter keptEntry (configured cfg))"
  by (simp add: activeExperiments_def validExperiments_def active_filter_step)

lemma idle_in_notice: "sublist (js ''idle'') (snd idleNotice)"
proof -
  have "snd idleNotice
      = js ''prompt-ab-test: no active experiments configured, plugin is '' @ js ''idle'' @ []"
    by (simp add: idleNotice_def js_def)
  then show ?thesis
    unfolding sublist_def by blast
qed

text \<open>
  Claim C8, amended. The active list consists of exactly the raw entries, in order,
  that have a string id which is not empty once trimmed, a non-empty variants array, and
  an \<open>enabled\<close> flag that is not \<open>false\<close>; when it is empty, no hook is registered and
  an info message containing \<open>idle\<close> is logged.
\<close>

theorem register_active_list:
  "activeExperiments cfg = List.map_filter asExperiment (filter keptEntry (configured cfg))
   \<and> length (activeExperiments cfg) = length (filter keptEntry (configured cfg))
   \<and> (activeExperiments cfg = [] \<longrightarrow>
        reg_hooks (register cfg) = []
        \<and> (\<exists>m. (Info, m) \<in> set (reg_logger (register cfg)) \<and> sublist (js ''idle'') m))"
proof (intro conjI impI)
  show "activeExperiments cfg = List.map_filter asExperiment (filter keptEntry (configured cfg))"
    by (rule activeExperiments_kept)
  show "length (activeExperiments cfg) = length (filter keptEntry (configured cfg))"
    by (simp only: activeExperiments_kept kept_all_typed)
next
  assume idle: "activeExperiments cfg = []"
  then show "reg_hooks (register cfg) = []"
    by (simp add: register_def)
  have "idleNotice \<in> set (reg_logger (register cfg))"
    using idle by (simp add: register_def)
  moreover have "idleNotice = (Info, snd idleNotice)"
    by (simp add: idleNotice_def)
  ultimately have "(Info, snd idleNotice) \<in> set (reg_logger (register cfg))"
    by simp
  with idle_in_notice show "\<exists>m. (Info, m) \<in> set (reg_logger (register cfg)) \<and> sublist (js ''idle'') m"
    by blast
qed

text \<open>
  A configuration whose only experiment is disabled.
\<close>

theorem register_active_list_witness:
  "activeExperiments (configOf [rawEntry ''exp-1'' (Some False) [plainVariant ''control'' None]]) = []
   \<and> reg_hooks (register (configOf [rawEntry ''exp-1'' (Some False) [plainVariant ''control'' None]])) = []
   \<and> (\<exists>m. (Info, m) \<in> set (reg_logger (register (configOf
           [rawEntry ''exp-1'' (Some False) [plainVariant ''control'' None]])))
          \<and> sublist (js ''idle'') m)"
proof -
  let ?cfg = "configOf [rawEntry ''exp-1'' (Some False) [plainVariant ''control'' None]]"
  have "filter keptEntry (configured ?cfg) = []"
    by (simp add: configured_def configOf_def rawEntry_def keptEntry_def)
  with register_active_list [of ?cfg] have idle: "activeExperiments ?cfg = []"
    by simp
  with register_active_list [of ?cfg] show ?thesis
    by blast
qed

text \<open>
  Claim C8 as stated, with a non-empty string id, fails: an entry whose id is one
  blank has a non-empty string id, a variant and no \<open>enabled\<close> flag, and the registration
  drops it.
\<close>

theorem register_drops_blank_id:
  "filter nonEmptyIdEntry [rawEntry '' '' None [plainVariant ''control'' None]]
     = [rawEntry '' '' None [plainVariant ''control'' None]]
   \<and> activeExperiments (configOf [rawEntry '' '' None [plainVariant ''control'' None]]) = []"
  by (simp add: nonEmptyIdEntry_def rawEntry_def js_def activeExperiments_def
      validExperiments_def configured_def configOf_def validateEntry_def trim_def
      isWhiteSpace_def List.map_filter_simps)

subsection \<open>The agent_end handler (claim C9)\<close>

text \<open>
  Claim C9. The handler leaves the assignment cache as it is, for every request and
  every state, and logs nothing when the request has neither \<open>sessionKey\<close> nor
  \<open>sessionId\<close>.
\<close>

theorem agent_end_reads_only:
  "assignmentCache (agent_end exps ctx st) = assignmentCache st
   \<and> (ctx_sessionKey ctx = None \<and> ctx_sessionId ctx = None \<longrightarrow>
        logger (agent_end exps ctx st) = logger st)"
  by (simp add: agent_end_def Let_def split: option.splits)

text \<open>
  With one cached assignment: the report line for its session, nothing for a request
  without identity, the cache unchanged.
\<close>

theorem agent_end_reads_only_witness:
  "assignmentCache (agent_end [logExperiment] (sessionContext ''sess-1'') cachedState)
     = assignmentCache cachedState
   \<and> logger (agent_end [logExperiment] (sessionContext ''sess-1'') cachedState)
     = [(Info, js ''prompt-ab-test: assignments session=sess-1 [exp-log=variant-a]'')]
   \<and> logger (agent_end [logExperiment] emptyContext cachedState) = logger cachedState"
proof -
  have "logger (agent_end [logExperiment] (sessionContext ''sess-1'') cachedState)
     = [(Info, js ''prompt-ab-test: assignments session=sess-1 [exp-log=variant-a]'')]"
    by (simp add: agent_end_def cachedAssignments_def reportLine_def logExperiment_def
        sessionContext_def cachedState_def compositeKey_def plainVariant_def js_def
        List.map_filter_simps)
  moreover have "ctx_sessionKey emptyContext = None \<and> ctx_sessionId emptyContext = None"
    by (simp add: emptyContext_def)
  ultimately show ?thesis
    using agent_end_reads_only [of "[logExperiment]" "sessionContext ''sess-1''" cachedState]
      agent_end_reads_only [of "[logExperiment]" emptyContext cachedState]
    by blast
qed

end
